theory Spec2Isabelle
  imports Complex_Main "HOL-Library.Word" "HOL-Library.Product_Lexorder"
begin

section \<open>Numeric conventions\<close>

text \<open>
  The C++ sources compute in \<^verbatim>\<open>float\<close> and \<^verbatim>\<open>double\<close>. Their values are kept as
  \<^typ>\<open>real\<close> numbers. Where the statement at hand does not turn on rounding, an
  arithmetic operation is read as the exact one; where it does (the sums of
  \<^verbatim>\<open>VisibilityDistance\<close>, \<^verbatim>\<open>AssociateWeightToVisibility\<close> and
  \<^verbatim>\<open>ComputeAverageDistance\<close>), every operation is followed by the rounding to its
  type, \<open>float_round\<close> or \<open>double_round\<close> below. \<^verbatim>\<open>int\<close> values are \<^typ>\<open>int\<close>; the
  indices met here stay far from the 32-bit limits, and the one counter that may reach
  them is checked. The sentinel \<^verbatim>\<open>numeric_limits<float>::max()\<close> is the real number
  \<open>(2 - 2^-23) * 2^127\<close>.
\<close>

definition float_max :: real where
  "float_max = 340282346638528859811704183484516925440"


datatype error =
    PixelOutside      \<comment> \<open>\<^verbatim>\<open>cerr << "Pixel outside."; exit (1)\<close>\<close>
  | Impossible        \<comment> \<open>\<^verbatim>\<open>cerr << "Impossible."; exit (1)\<close>\<close>
  | OutOfRange        \<comment> \<open>a read or write outside a vector or an image\<close>
  | Undefined         \<comment> \<open>dereferencing \<^verbatim>\<open>end()\<close>, converting a non-finite \<^verbatim>\<open>double\<close> to \<^verbatim>\<open>int\<close>\<close>

text \<open>\<^verbatim>\<open>v[i]\<close> and \<^verbatim>\<open>v.at(i)\<close> on a vector, with the index checked.\<close>

definition vec_at :: "'a list \<Rightarrow> int \<Rightarrow> error + 'a" where
  "vec_at v i = (if 0 \<le> i \<and> i < int (length v) then Inr (v ! nat i) else Inl OutOfRange)"

text \<open>\<^verbatim>\<open>round\<close> of the C library: halfway cases go away from zero.\<close>

definition c_round :: "real \<Rightarrow> int" where
  "c_round x = (if 0 \<le> x then \<lfloor>x + 1 / 2\<rfloor> else \<lceil>x - 1 / 2\<rceil>)"


subsection \<open>Binary floating point\<close>

text \<open>
  The rounding of IEEE 754 to the nearest number of \<open>p\<close> significant bits, halfway
  cases to the even one. \<open>bit_length n\<close> is the number of binary digits of \<open>n\<close>, and
  \<open>binary_exponent x\<close> is the \<open>e\<close> with \<open>2^e \<le> \<bar>x\<bar> < 2^(e + 1)\<close>. Below the least
  exponent \<open>emin\<close> the spacing of the numbers stays that of \<open>emin\<close> (the subnormal
  numbers). A \<^verbatim>\<open>float\<close> has 24 significant bits and the least exponent \<open>-126\<close>, a
  \<^verbatim>\<open>double\<close> 53 and \<open>-1022\<close>. A result beyond the largest finite number, where the
  machine gives an infinity, is not modelled: the function rounds it like any other.
\<close>

function bit_length :: "int \<Rightarrow> int" where
  "bit_length n = (if n \<le> 0 then 0 else 1 + bit_length (n div 2))"
  by auto

termination
  by (relation "measure nat") auto

declare bit_length.simps [simp del]

definition binary_exponent :: "real \<Rightarrow> int" where
  "binary_exponent x =
     (if 1 \<le> \<bar>x\<bar> then bit_length \<lfloor>\<bar>x\<bar>\<rfloor> - 1
      else - bit_length (\<lceil>1 / \<bar>x\<bar>\<rceil> - 1))"

definition round_even :: "real \<Rightarrow> int" where
  "round_even x =
     (let n = \<lfloor>x\<rfloor>; r = x - real_of_int n
      in if r < 1 / 2 then n else if 1 / 2 < r then n + 1 else if even n then n else n + 1)"

definition round_binary :: "nat \<Rightarrow> int \<Rightarrow> real \<Rightarrow> real" where
  "round_binary p emin x =
     (let e = max emin (binary_exponent x);
          u = 2 powi (e - int p + 1)
      in real_of_int (round_even (x / u)) * u)"

definition float_round :: "real \<Rightarrow> real" where
  "float_round = round_binary 24 (- 126)"



section \<open>floorplan/panorama.cc\<close>

type_synonym vec2 = "real \<times> real"
type_synonym vec3 = "real \<times> real \<times> real"
type_synonym vec4 = "real \<times> real \<times> real \<times> real"

text \<open>A \<^verbatim>\<open>Matrix4d\<close> is kept as its four rows.\<close>

type_synonym mat4 = "vec4 \<times> vec4 \<times> vec4 \<times> vec4"

type_synonym vec3b = "8 word \<times> 8 word \<times> 8 word"

record Panorama =
  rgb_image :: "vec3b list list"   \<comment> \<open>rows of texels, \<^verbatim>\<open>rgb_image.at(v, u)\<close>\<close>
  width :: int
  height :: int
  local_to_global :: mat4
  global_to_local :: mat4
  phi_range :: real
  phi_per_pixel :: real

definition dot4 :: "vec4 \<Rightarrow> vec4 \<Rightarrow> real" where
  "dot4 a b = (case a of (a0, a1, a2, a3) \<Rightarrow> case b of (b0, b1, b2, b3) \<Rightarrow>
     a0 * b0 + a1 * b1 + a2 * b2 + a3 * b3)"

text \<open>\<^verbatim>\<open>matrix * vector\<close> of Eigen, for a 4x4 matrix and a 4-vector.\<close>

definition mat4_times :: "mat4 \<Rightarrow> vec4 \<Rightarrow> vec4" where
  "mat4_times m v = (case m of (r0, r1, r2, r3) \<Rightarrow>
     (dot4 r0 v, dot4 r1 v, dot4 r2 v, dot4 r3 v))"

text \<open>
  \<^verbatim>\<open>InitCameraParameters\<close> reads the 4x4 matrix \<open>m\<close> and the scalar \<open>phi\<close> from the
  transformation file. \<open>local_to_global\<close> is the matrix as read; the upper 3x4 part of
  \<open>global_to_local\<close> is \<open>[R\<^sup>T | - R\<^sup>T t]\<close> for the rotation block \<open>R\<close> and the
  translation column \<open>t\<close> of \<open>m\<close>, and its last row is set to \<open>(0, 0, 0, 1)\<close>.
\<close>

definition InitCameraParameters :: "mat4 \<Rightarrow> real \<Rightarrow> Panorama \<Rightarrow> Panorama" where
  "InitCameraParameters m phi p =
     (case m of ((r00, r01, r02, t0), (r10, r11, r12, t1), (r20, r21, r22, t2), row3) \<Rightarrow>
        p\<lparr> local_to_global := m,
           global_to_local :=
             ((r00, r10, r20, - (r00 * t0 + r10 * t1 + r20 * t2)),
              (r01, r11, r21, - (r01 * t0 + r11 * t1 + r21 * t2)),
              (r02, r12, r22, - (r02 * t0 + r12 * t1 + r22 * t2)),
              (0, 0, 0, 1)),
           phi_range := phi \<rparr>)"

definition GlobalToLocal :: "Panorama \<Rightarrow> vec3 \<Rightarrow> vec3" where
  "GlobalToLocal p global = (case global of (g0, g1, g2) \<Rightarrow>
     (let global4 = (g0, g1, g2, 1);
          local4 = mat4_times (global_to_local p) global4
      in case local4 of (l0, l1, l2, l3) \<Rightarrow> (l0, l1, l2)))"

text \<open>
  The source returns \<^verbatim>\<open>Vector3d(global4[0], global4[1], local4[2])\<close>: the third
  component is the one of the argument.
\<close>

definition LocalToGlobal :: "Panorama \<Rightarrow> vec3 \<Rightarrow> vec3" where
  "LocalToGlobal p local = (case local of (l0, l1, l2) \<Rightarrow>
     (let local4 = (l0, l1, l2, 1);
          global4 = mat4_times (local_to_global p) local4
      in case global4 of (g0, g1, g2, g3) \<Rightarrow>
           case local4 of (k0, k1, k2, k3) \<Rightarrow> (g0, g1, k2)))"

text \<open>
  \<^verbatim>\<open>atan2\<close> of the C library on real arguments, with value in \<open>(-\<pi>, \<pi>]\<close> and
  \<open>atan2 0 0 = 0\<close>.
\<close>

definition atan2 :: "real \<Rightarrow> real \<Rightarrow> real" where
  "atan2 y x =
     (if 0 < x then arctan (y / x)
      else if x < 0 then (if 0 \<le> y then arctan (y / x) + pi else arctan (y / x) - pi)
      else if 0 < y then pi / 2
      else if y < 0 then - (pi / 2)
      else 0)"

text \<open>Lines 34 to 36 of \<^verbatim>\<open>Project\<close>: the azimuth \<open>theta\<close> of a local point.\<close>

definition azimuth :: "vec3 \<Rightarrow> real" where
  "azimuth local = (case local of (lx, ly, lz) \<Rightarrow>
     (let theta = - atan2 ly lx
      in if theta < 0 then theta + 2 * pi else theta))"

text \<open>Lines 37 to 39: the ratio is clamped, and a ratio of exactly 1 is set to 0.\<close>

definition theta_ratio :: "real \<Rightarrow> real" where
  "theta_ratio theta =
     (let ratio = max 0 (min 1 (theta / (2 * pi)))
      in if ratio = 1 then 0 else ratio)"

definition Project :: "Panorama \<Rightarrow> vec3 \<Rightarrow> vec2" where
  "Project p global =
     (let local = GlobalToLocal p global
      in case local of (lx, ly, lz) \<Rightarrow>
        (let u = theta_ratio (azimuth local) * real_of_int (width p);
             depth = sqrt (lx * lx + ly * ly);
             phi = atan2 lz depth;
             pixel_offset_from_center = phi / phi_per_pixel p;
             v = real_of_int (height p) / 2 - pixel_offset_from_center
         in (u, v)))"








text \<open>
  Two concrete panoramas: one whose transformation file holds the translation by
  \<open>(0, 0, 1)\<close>, and one with a 2x2 image and the identity transformation.
\<close>

definition translated_camera :: Panorama where
  "translated_camera =
     InitCameraParameters ((1, 0, 0, 0), (0, 1, 0, 0), (0, 0, 1, 1), (0, 0, 0, 1)) 1
       \<lparr> rgb_image = [], width = 0, height = 0,
          local_to_global = ((0, 0, 0, 0), (0, 0, 0, 0), (0, 0, 0, 0), (0, 0, 0, 0)),
          global_to_local = ((0, 0, 0, 0), (0, 0, 0, 0), (0, 0, 0, 0), (0, 0, 0, 0)),
          phi_range = 0, phi_per_pixel = 0 \<rparr>"

definition seam_panorama :: Panorama where
  "seam_panorama =
     \<lparr> rgb_image = [[(10, 20, 30), (40, 50, 60)], [(70, 80, 90), (100, 110, 120)]],
        width = 2, height = 2,
        local_to_global = ((1, 0, 0, 0), (0, 1, 0, 0), (0, 0, 1, 0), (0, 0, 0, 1)),
        global_to_local = ((1, 0, 0, 0), (0, 1, 0, 0), (0, 0, 1, 0), (0, 0, 0, 1)),
        phi_range = 1, phi_per_pixel = 1 / 2 \<rparr>"

section \<open>segmentation/door_detection.cc\<close>

subsection \<open>Visibility signatures\<close>

text \<open>
  A weighted-visibility signature is a \<^verbatim>\<open>vector<pair<int, float> >\<close> of boundary index
  and weight.
\<close>

type_synonym signature = "(int \<times> real) list"

text \<open>
  The loop of \<^verbatim>\<open>VisibilityDistance\<close>. The two list arguments are the parts of \<open>lhs\<close>
  and \<open>rhs\<close> from \<open>lhs_index\<close> and \<open>rhs_index\<close> on; the third is \<open>distance\<close>. The
  branches are in the order of the source.
\<close>

fun VisibilityDistance_loop :: "signature \<Rightarrow> signature \<Rightarrow> real \<Rightarrow> real" where
  "VisibilityDistance_loop [] [] distance = distance"
| "VisibilityDistance_loop [] (r # rs) distance =
     VisibilityDistance_loop [] rs (distance + snd r)"
| "VisibilityDistance_loop (l # ls) [] distance =
     VisibilityDistance_loop ls [] (distance + snd l)"
| "VisibilityDistance_loop (l # ls) (r # rs) distance =
     (if fst l = fst r then VisibilityDistance_loop ls rs distance
      else if fst l < fst r then VisibilityDistance_loop ls (r # rs) (distance + snd l)
      else VisibilityDistance_loop (l # ls) rs (distance + snd r))"

definition VisibilityDistance :: "signature \<Rightarrow> signature \<Rightarrow> real" where
  "VisibilityDistance lhs rhs = VisibilityDistance_loop lhs rhs 0 / 2"

text \<open>
  The signature as a sparse vector over the boundary indices: the weight stored for an
  index, and 0 for an index that does not occur.
\<close>

definition weight_at :: "signature \<Rightarrow> int \<Rightarrow> real" where
  "weight_at sig k = (case map_of sig k of None \<Rightarrow> 0 | Some w \<Rightarrow> w)"

text \<open>
  Half the L1 distance of two signatures as sparse vectors: the sum runs over the
  indices that occur in either of them.
\<close>

definition half_L1 :: "signature \<Rightarrow> signature \<Rightarrow> real" where
  "half_L1 lhs rhs =
     sum_list (map (\<lambda>k. \<bar>weight_at lhs k - weight_at rhs k\<bar>)
                 (remdups (map fst lhs @ map fst rhs))) / 2"

text \<open>The weights of the entries of \<open>sig\<close> whose index does not occur in \<open>other\<close>.\<close>

definition unmatched_weight :: "signature \<Rightarrow> signature \<Rightarrow> real" where
  "unmatched_weight sig other =
     sum_list (map snd (filter (\<lambda>e. fst e \<notin> set (map fst other)) sig))"

definition ascending :: "signature \<Rightarrow> bool" where
  "ascending sig \<longleftrightarrow> sorted_wrt (<) (map fst sig)"










subsection \<open>Sweeps and the frame\<close>

text \<open>
  \<^verbatim>\<open>floored::Sweep\<close> and \<^verbatim>\<open>floored::Frame\<close> are declared in \<^verbatim>\<open>submodular/data.h\<close>; the
  fields below are the ones \<^verbatim>\<open>door_detection.cc\<close> reads and writes. The arrays
  \<^verbatim>\<open>axes[3]\<close>, \<^verbatim>\<open>ranges[3][2]\<close> and \<^verbatim>\<open>size[3]\<close> are lists of length 3; \<open>size\<close> and
  \<open>unit\<close> carry the prefix \<open>frame_\<close> since HOL has these names already.
\<close>

record OrientedPoint =
  position :: vec3
  normal :: vec3
  weight :: real

record Sweep =
  center :: vec3
  points :: "OrientedPoint list"

record Frame =
  axes :: "vec3 list"
  ranges :: "(real \<times> real) list"
  frame_size :: "int list"
  frame_unit :: real


definition vec3_dot :: "vec3 \<Rightarrow> vec3 \<Rightarrow> real" where
  "vec3_dot a b = (case a of (a0, a1, a2) \<Rightarrow> case b of (b0, b1, b2) \<Rightarrow>
     a0 * b0 + a1 * b1 + a2 * b2)"







definition point_at :: "vec3 \<Rightarrow> OrientedPoint" where
  "point_at x = \<lparr> position = x, normal = (0, 0, 1), weight = 1 \<rparr>"




subsection \<open>The ranges of the frame\<close>

text \<open>\<^verbatim>\<open>histogram[a]\<close> of \<^verbatim>\<open>SetRanges\<close>: the coordinate of every point on one axis.\<close>

definition histogram_of :: "Sweep list \<Rightarrow> vec3 \<Rightarrow> real list" where
  "histogram_of sweeps axis =
     concat (map (\<lambda>sweep. map (\<lambda>point. vec3_dot (position point) axis) (points sweep)) sweeps)"

text \<open>
  \<^verbatim>\<open>std::nth_element(first, nth, last)\<close> is the library's. The C++ standard fixes that
  the range is permuted and that no element before \<open>nth\<close> is greater than an element
  from \<open>nth\<close> on, so that the element at \<open>nth\<close> is the one of the sorted order; where
  the other elements go is the choice of the library. The embedding takes the function
  as a parameter: \<open>nth_element n xs\<close> is the vector \<open>xs\<close> after the call with
  \<open>nth = begin() + n\<close>, and \<open>standard_nth_element\<close> says what the standard says of it.
\<close>

definition nth_element_post :: "nat \<Rightarrow> real list \<Rightarrow> real list \<Rightarrow> bool" where
  "nth_element_post n xs ys \<longleftrightarrow>
     length ys = length xs \<and> (\<forall>x. count_list ys x = count_list xs x) \<and>
     (\<forall>i < n. \<forall>j < length ys. n \<le> j \<longrightarrow> ys ! i \<le> ys ! j)"

definition standard_nth_element :: "(nat \<Rightarrow> real list \<Rightarrow> real list) \<Rightarrow> bool" where
  "standard_nth_element nth_element \<longleftrightarrow>
     (\<forall>n xs. n \<le> length xs \<longrightarrow> nth_element_post n xs (nth_element n xs))"

text \<open>
  The body of the loop over the axes. The vector is sorted; \<open>pos_5\<close> and \<open>pos_95\<close> are
  the positions \<^verbatim>\<open>size() * 1 / 100\<close> and \<^verbatim>\<open>size() * 99 / 100\<close> (integer division). The
  two calls of \<^verbatim>\<open>nth_element\<close> follow one another, and both positions are read after
  the second call. On an empty vector both positions are \<^verbatim>\<open>end()\<close>.
\<close>

definition percentile_range ::
  "(nat \<Rightarrow> real list \<Rightarrow> real list) \<Rightarrow> real list \<Rightarrow> error + (real \<times> real)" where
  "percentile_range nth_element histogram =
     (let histogram = sort histogram;
          pos_5 = length histogram * 1 div 100;
          pos_95 = length histogram * 99 div 100;
          histogram = nth_element pos_5 histogram;
          histogram = nth_element pos_95 histogram
      in if pos_5 < length histogram \<and> pos_95 < length histogram then
           let diff = histogram ! pos_95 - histogram ! pos_5;
               margin = diff * 5 / 100
           in Inr (histogram ! pos_5 - margin, histogram ! pos_95 + margin)
         else Inl Undefined)"

definition SetRanges ::
  "(nat \<Rightarrow> real list \<Rightarrow> real list) \<Rightarrow> Sweep list \<Rightarrow> real \<Rightarrow> Frame \<Rightarrow> error + Frame" where
  "SetRanges nth_element sweeps average_distance frame =
     (case percentile_range nth_element (histogram_of sweeps (axes frame ! 0)) of
        Inl e \<Rightarrow> Inl e | Inr r0 \<Rightarrow>
     (case percentile_range nth_element (histogram_of sweeps (axes frame ! 1)) of
        Inl e \<Rightarrow> Inl e | Inr r1 \<Rightarrow>
     (case percentile_range nth_element (histogram_of sweeps (axes frame ! 2)) of
        Inl e \<Rightarrow> Inl e | Inr r2 \<Rightarrow>
        let unit = average_distance / 50
        in if unit = 0 then Inl Undefined
           else
             let width = c_round ((snd r0 - fst r0) / unit);
                 height = c_round ((snd r1 - fst r1) / unit);
                 kMaxResolution = 600;
                 max_current_resolution = max width height;
                 unit = (if kMaxResolution < max_current_resolution
                         then unit * real_of_int (max_current_resolution div kMaxResolution)
                         else unit)
             in Inr (frame\<lparr> ranges := [r0, r1, r2],
                            frame_unit := unit,
                            frame_size := map (\<lambda>r. c_round ((snd r - fst r) / unit)) [r0, r1, r2] \<rparr>))))"

text \<open>
  A hundred points on the first axis: ninety-nine at 1 and one at 2; and the frame
  with the axes that \<^verbatim>\<open>ComputeFrame\<close> sets.
\<close>

definition hundred_points :: "Sweep list" where
  "hundred_points =
     [\<lparr> center = (0, 0, 0),
        points = map (\<lambda>x. point_at (x, 0, 0)) (replicate 99 1 @ [2]) \<rparr>]"

definition axis_frame :: Frame where
  "axis_frame =
     \<lparr> axes = [(1, 0, 0), (0, 1, 0), (0, 0, 1)],
        ranges = [(0, 0), (0, 0), (0, 0)],
        frame_size = [0, 0, 0],
        frame_unit = 0 \<rparr>"

subsection \<open>The Gaussian blur restricted to the mask\<close>

text \<open>
  In the functions on grids the parameters \<open>w\<close>, \<open>h\<close> and \<open>msk\<close> are the
  \<^verbatim>\<open>width\<close>, \<^verbatim>\<open>height\<close> and \<^verbatim>\<open>mask\<close> of the source, and \<open>kern\<close> is its \<^verbatim>\<open>kernel\<close>. A grid is a vector in row-major order: cell \<open>(x, y)\<close> is
  entry \<open>y * w + x\<close>.

  The kernel of \<^verbatim>\<open>BlurField\<close>: a vector of \<open>size * size\<close> zeros, filled by the two
  loops over \<open>y\<close> and \<open>x\<close>. The quotient \<^verbatim>\<open>- (x * x + y * y) / sigma2\<close> has an \<^verbatim>\<open>int\<close>
  numerator and a \<^verbatim>\<open>double\<close> denominator.
\<close>

definition kernel_index :: "int \<Rightarrow> int \<Rightarrow> int \<Rightarrow> int" where
  "kernel_index half_size j i = (j + half_size) * (2 * half_size + 1) + (i + half_size)"

definition BlurField_kernel :: "real \<Rightarrow> real list" where
  "BlurField_kernel sigma =
     (let sigma2 = 2 * sigma * sigma;
          half_size = \<lceil>2 * sigma\<rceil>;
          size = 2 * half_size + 1
      in fold (\<lambda>y. fold (\<lambda>x kern.
                 kern[nat (kernel_index half_size y x) :=
                          exp (real_of_int (- (x * x + y * y)) / sigma2)])
               [- half_size..half_size])
           [- half_size..half_size]
           (replicate (nat (size * size)) 0))"

text \<open>
  The body of the loop over \<open>i\<close>, for the row \<open>ytmp = y + j\<close>: one kernel tap, added to
  the pair \<open>(numer, denom)\<close>.
\<close>

definition BlurField_tap ::
  "int \<Rightarrow> bool list \<Rightarrow> real list \<Rightarrow> real list \<Rightarrow> int \<Rightarrow> int \<Rightarrow> int \<Rightarrow> int \<Rightarrow> int \<Rightarrow>
   error + real \<times> real \<Rightarrow> error + real \<times> real" where
  "BlurField_tap w msk kern old_field half_size x ytmp j i acc =
     (let xtmp = x + i
      in if xtmp < 0 \<or> w \<le> xtmp then acc
         else
           case acc of Inl e \<Rightarrow> Inl e | Inr (numer, denom) \<Rightarrow>
             (let index_tmp = ytmp * w + xtmp
              in case vec_at msk index_tmp of Inl e \<Rightarrow> Inl e | Inr m \<Rightarrow>
                   (if \<not> m then Inr (numer, denom)
                    else
                      case vec_at kern (kernel_index half_size j i) of Inl e \<Rightarrow> Inl e
                      | Inr k \<Rightarrow>
                          (case vec_at old_field index_tmp of Inl e \<Rightarrow> Inl e
                           | Inr f \<Rightarrow> Inr (numer + f * k, denom + k)))))"

text \<open>The body of the loop over \<open>j\<close>.\<close>

definition BlurField_row ::
  "int \<Rightarrow> int \<Rightarrow> bool list \<Rightarrow> real list \<Rightarrow> real list \<Rightarrow> int \<Rightarrow> int \<Rightarrow> int \<Rightarrow> int \<Rightarrow>
   error + real \<times> real \<Rightarrow> error + real \<times> real" where
  "BlurField_row w h msk kern old_field half_size x y j acc =
     (let ytmp = y + j
      in if ytmp < 0 \<or> h \<le> ytmp then acc
         else fold (BlurField_tap w msk kern old_field half_size x ytmp j)
                [- half_size..half_size] acc)"

text \<open>The sums \<open>numer\<close> and \<open>denom\<close> of the cell \<open>(x, y)\<close>.\<close>

definition BlurField_cell ::
  "int \<Rightarrow> int \<Rightarrow> bool list \<Rightarrow> real list \<Rightarrow> real list \<Rightarrow> int \<Rightarrow> int \<Rightarrow> int \<Rightarrow>
   error + real \<times> real" where
  "BlurField_cell w h msk kern old_field half_size x y =
     fold (BlurField_row w h msk kern old_field half_size x y)
       [- half_size..half_size] (Inr (0, 0))"

text \<open>
  The body of the loops over the cells: a cell outside the mask is skipped, a zero
  denominator is the abort \<^verbatim>\<open>Impossible\<close>, and \<^verbatim>\<open>field->at(index)\<close> is a checked write.
\<close>

definition BlurField_step ::
  "int \<Rightarrow> int \<Rightarrow> bool list \<Rightarrow> real list \<Rightarrow> real list \<Rightarrow> int \<Rightarrow> int \<Rightarrow> int \<Rightarrow>
   error + real list \<Rightarrow> error + real list" where
  "BlurField_step w h msk kern old_field half_size y x field =
     (case field of Inl e \<Rightarrow> Inl e | Inr f \<Rightarrow>
        (let index = y * w + x
         in case vec_at msk index of Inl e \<Rightarrow> Inl e | Inr m \<Rightarrow>
              (if \<not> m then Inr f
               else
                 case BlurField_cell w h msk kern old_field half_size x y of Inl e \<Rightarrow> Inl e
                 | Inr (numer, denom) \<Rightarrow>
                     (if denom = 0 then Inl Impossible
                      else if 0 \<le> index \<and> index < int (length f)
                      then Inr (f[nat index := numer / denom])
                      else Inl OutOfRange))))"

definition BlurField :: "int \<Rightarrow> int \<Rightarrow> bool list \<Rightarrow> real \<Rightarrow> real list \<Rightarrow> error + real list" where
  "BlurField w h msk sigma field =
     (let half_size = \<lceil>2 * sigma\<rceil>;
          kern = BlurField_kernel sigma;
          old_field = field
      in fold (\<lambda>y. fold (BlurField_step w h msk kern old_field half_size y) [0..w - 1])
           [0..h - 1] (Inr field))"

subsection \<open>Cluster centres and merging\<close>

text \<open>
  The parameters \<^verbatim>\<open>width\<close>, \<^verbatim>\<open>height\<close> and \<^verbatim>\<open>subsample\<close> of \<^verbatim>\<open>UpdateCenters\<close> and
  \<^verbatim>\<open>Merge\<close> are not read by either function and are left out. Loop counters that
  start at 0 are \<^typ>\<open>nat\<close>; the entries of \<open>centers\<close> and of the clusters are \<^typ>\<open>int\<close>
  and index \<open>weighted_visibility\<close> through the checked read.
\<close>

definition kMergeThreshold :: real where
  "kMergeThreshold = 1 / 2"

text \<open>
  The vector \<open>distances\<close> of \<^verbatim>\<open>UpdateCenters\<close> for one cluster: for every member the
  sum of the squared distances to the other members.
\<close>

definition squared_distances :: "signature list \<Rightarrow> int list \<Rightarrow> error + real list" where
  "squared_distances weighted_visibility cluster =
     fold (\<lambda>i. fold (\<lambda>j acc. case acc of Inl e \<Rightarrow> Inl e | Inr distances \<Rightarrow>
                 (case vec_at weighted_visibility (cluster ! i) of Inl e \<Rightarrow> Inl e | Inr si \<Rightarrow>
                 (case vec_at weighted_visibility (cluster ! j) of Inl e \<Rightarrow> Inl e | Inr sj \<Rightarrow>
                    (let distance = VisibilityDistance si sj;
                         distances = distances[i := distances ! i + distance * distance]
                     in Inr (distances[j := distances ! j + distance * distance])))))
               [Suc i..<length cluster])
       [0..<length cluster] (Inr (replicate (length cluster) 0))"

text \<open>\<^verbatim>\<open>std::min_element\<close>: the position of the first smallest entry.\<close>

definition min_element :: "real list \<Rightarrow> nat" where
  "min_element xs = fold (\<lambda>i smallest. if xs ! i < xs ! smallest then i else smallest)
                      [1..<length xs] 0"

definition UpdateCenters :: "signature list \<Rightarrow> int list list \<Rightarrow> error + int list" where
  "UpdateCenters weighted_visibility clusters =
     fold (\<lambda>c acc. case acc of Inl e \<Rightarrow> Inl e | Inr centers \<Rightarrow>
             (let cluster = clusters ! c
              in if cluster = [] then Inr centers
                 else
                   case squared_distances weighted_visibility cluster of Inl e \<Rightarrow> Inl e
                   | Inr distances \<Rightarrow> Inr (centers[c := cluster ! min_element distances])))
       [0..<length clusters] (Inr (replicate (length clusters) 0))"

text \<open>The assignment \<^verbatim>\<open>distances[i][j] = v\<close> on a vector of vectors.\<close>

definition matrix_set :: "real list list \<Rightarrow> nat \<Rightarrow> nat \<Rightarrow> real \<Rightarrow> real list list" where
  "matrix_set d i j v = d[i := (d ! i)[j := v]]"

text \<open>
  The distance matrix of \<^verbatim>\<open>Merge\<close>: \<open>n\<close> rows of \<open>n\<close> entries \<open>float_max\<close>, with the
  entries above the diagonal set to the distance of the two centres. All later reads
  and writes of the matrix have both indices below \<open>n\<close>.
\<close>

definition center_distances :: "signature list \<Rightarrow> int list \<Rightarrow> error + real list list" where
  "center_distances weighted_visibility centers =
     (let n = length centers
      in fold (\<lambda>i. fold (\<lambda>j acc. case acc of Inl e \<Rightarrow> Inl e | Inr distances \<Rightarrow>
                    (case vec_at weighted_visibility (centers ! i) of Inl e \<Rightarrow> Inl e | Inr si \<Rightarrow>
                    (case vec_at weighted_visibility (centers ! j) of Inl e \<Rightarrow> Inl e | Inr sj \<Rightarrow>
                       Inr (matrix_set distances i j (VisibilityDistance si sj)))))
                  [Suc i..<n])
           [0..<n] (Inr (replicate n (replicate n float_max))))"

text \<open>
  The search for the closest pair. \<open>closest_pair\<close> is a default-constructed
  \<^verbatim>\<open>pair<int, int>\<close>, that is \<open>(0, 0)\<close>, until an entry below \<open>closest_distance\<close> is met.
\<close>

definition closest_pair_of :: "nat \<Rightarrow> real list list \<Rightarrow> real \<times> nat \<times> nat" where
  "closest_pair_of n distances =
     fold (\<lambda>i. fold (\<lambda>j (closest_distance, closest_pair).
                 if distances ! i ! j < closest_distance then (distances ! i ! j, (i, j))
                 else (closest_distance, closest_pair))
               [Suc i..<n])
       [0..<n] (float_max, (0, 0))"

text \<open>The loop that sets the rows and columns of the two merged centres to \<open>float_max\<close>.\<close>

definition invalidate :: "nat \<Rightarrow> nat \<times> nat \<Rightarrow> real list list \<Rightarrow> real list list" where
  "invalidate n closest_pair distances =
     fold (\<lambda>i d.
             (let d = matrix_set d (fst closest_pair) i float_max;
                  d = matrix_set d (snd closest_pair) i float_max;
                  d = matrix_set d i (fst closest_pair) float_max
              in matrix_set d i (snd closest_pair) float_max))
       [0..<n] distances"

text \<open>
  The \<^verbatim>\<open>while (true)\<close> loop of \<^verbatim>\<open>Merge\<close>. It has no bound in the source; \<open>None\<close> is
  the loop that does not end.
\<close>

partial_function (option) find_pairs_to_merge ::
  "nat \<Rightarrow> real \<Rightarrow> real list list \<Rightarrow> (nat \<times> nat) list \<Rightarrow> (nat \<times> nat) list option" where
  "find_pairs_to_merge n threshold distances pairs_to_merge =
     (case closest_pair_of n distances of (closest_distance, closest_pair) \<Rightarrow>
        if closest_distance < threshold
        then find_pairs_to_merge n threshold (invalidate n closest_pair distances)
               (pairs_to_merge @ [closest_pair])
        else Some pairs_to_merge)"

declare find_pairs_to_merge.simps [code]

text \<open>
  For the statements about \<^verbatim>\<open>Merge\<close>: a matrix of \<open>n\<close> rows of \<open>n\<close> entries, the pairs
  \<open>(i, j)\<close> with \<open>i < j < n\<close> in the order of the two nested loops, an index that is
  inside \<open>weighted_visibility\<close>, and the distance of the centres at two positions.
\<close>

definition square :: "nat \<Rightarrow> real list list \<Rightarrow> bool" where
  "square n d \<longleftrightarrow> length d = n \<and> (\<forall>r < n. length (d ! r) = n)"

definition upper_pairs :: "nat \<Rightarrow> (nat \<times> nat) list" where
  "upper_pairs n = concat (map (\<lambda>i. map (Pair i) [Suc i..<n]) [0..<n])"

definition valid_index :: "signature list \<Rightarrow> int \<Rightarrow> bool" where
  "valid_index weighted_visibility k \<longleftrightarrow> 0 \<le> k \<and> k < int (length weighted_visibility)"

definition center_distance :: "signature list \<Rightarrow> int list \<Rightarrow> nat \<Rightarrow> nat \<Rightarrow> real" where
  "center_distance weighted_visibility centers i j =
     VisibilityDistance (weighted_visibility ! nat (centers ! i))
       (weighted_visibility ! nat (centers ! j))"

text \<open>\<^verbatim>\<open>cluster0.insert(cluster0.end(), ...)\<close> for every pair; \<^verbatim>\<open>clusters->at\<close> is checked.\<close>

definition merge_clusters :: "(nat \<times> nat) list \<Rightarrow> int list list \<Rightarrow> error + int list list" where
  "merge_clusters pairs_to_merge clusters =
     fold (\<lambda>p acc. case acc of Inl e \<Rightarrow> Inl e | Inr cl \<Rightarrow>
             if fst p < length cl \<and> snd p < length cl
             then Inr (cl[fst p := cl ! fst p @ cl ! snd p])
             else Inl OutOfRange)
       pairs_to_merge (Inr clusters)"

text \<open>\<^verbatim>\<open>clusters->erase(clusters->begin() + id)\<close> for every id; erasing at or beyond the
  end is undefined.\<close>

definition erase_clusters :: "nat list \<Rightarrow> int list list \<Rightarrow> error + int list list" where
  "erase_clusters erase_ids clusters =
     fold (\<lambda>id acc. case acc of Inl e \<Rightarrow> Inl e | Inr cl \<Rightarrow>
             if id < length cl then Inr (take id cl @ drop (Suc id) cl) else Inl Undefined)
       erase_ids (Inr clusters)"

text \<open>
  \<^verbatim>\<open>Merge\<close> returns the flag together with the vectors \<open>centers\<close> and \<open>clusters\<close> as it
  leaves them. \<^verbatim>\<open>sort(erase_ids.rbegin(), erase_ids.rend())\<close> sorts descending.
\<close>

definition Merge ::
  "signature list \<Rightarrow> real \<Rightarrow> int list \<Rightarrow> int list list \<Rightarrow>
   (error + bool \<times> int list \<times> int list list) option" where
  "Merge weighted_visibility threshold centers clusters =
     (case center_distances weighted_visibility centers of Inl e \<Rightarrow> Some (Inl e)
      | Inr distances \<Rightarrow>
     (case find_pairs_to_merge (length centers) threshold distances [] of None \<Rightarrow> None
      | Some pairs_to_merge \<Rightarrow>
          if pairs_to_merge = [] then Some (Inr (False, centers, clusters))
          else
            (case merge_clusters pairs_to_merge clusters of Inl e \<Rightarrow> Some (Inl e)
             | Inr merged \<Rightarrow>
            (case erase_clusters (rev (sort (map snd pairs_to_merge))) merged of
               Inl e \<Rightarrow> Some (Inl e)
             | Inr erased \<Rightarrow>
            (case UpdateCenters weighted_visibility erased of Inl e \<Rightarrow> Some (Inl e)
             | Inr updated \<Rightarrow> Some (Inr (True, updated, erased)))))))"

text \<open>
  The invariant of the loop of \<^verbatim>\<open>Merge\<close>: the pairs found so far are pairs \<open>i < j < n\<close>
  that share no index, and the rows and columns of their indices hold \<open>float_max\<close>.
  \<open>valid_clusters\<close> says that every member of every cluster is inside
  \<open>weighted_visibility\<close>.
\<close>

definition disjoint_pairs :: "nat \<Rightarrow> (nat \<times> nat) list \<Rightarrow> bool" where
  "disjoint_pairs n ps \<longleftrightarrow>
     (\<forall>p \<in> set ps. fst p < snd p \<and> snd p < n) \<and> distinct (map fst ps @ map snd ps)"

definition invalidated :: "nat \<Rightarrow> real list list \<Rightarrow> (nat \<times> nat) list \<Rightarrow> bool" where
  "invalidated n d ps \<longleftrightarrow>
     (\<forall>x \<in> set (map fst ps) \<union> set (map snd ps). \<forall>k < n.
        d ! x ! k = float_max \<and> d ! k ! x = float_max)"

definition valid_clusters :: "signature list \<Rightarrow> int list list \<Rightarrow> bool" where
  "valid_clusters weighted_visibility clusters \<longleftrightarrow>
     (\<forall>cluster \<in> set clusters. \<forall>m \<in> set cluster. valid_index weighted_visibility m)"

text \<open>Three signatures: the first two share the boundary index 0, the third shares none.\<close>

definition three_signatures :: "signature list" where
  "three_signatures = [[(0, 1)], [(0, 1 / 2), (1, 1 / 2)], [(5, 1)]]"

subsection \<open>The distance to the boundary\<close>

text \<open>
  A cell is the pair \<open>(x, y)\<close>. The water front is a
  \<^verbatim>\<open>priority_queue<pair<float, pair<int, int> > >\<close>: its top is the largest entry in the
  lexicographic order of the pairs, and the first component of an entry is the negated
  score. The queue is kept as the list of its entries; \<^verbatim>\<open>push\<close> adds an entry at the
  front.
\<close>

type_synonym cell = "int \<times> int"

type_synonym water_front = "(real \<times> cell) list"

definition queue_top :: "water_front \<Rightarrow> real \<times> cell" where
  "queue_top q = fold max (tl q) (hd q)"

definition queue_pop :: "water_front \<Rightarrow> water_front" where
  "queue_pop q = remove1 (queue_top q) q"

text \<open>
  The test of the first loop of \<^verbatim>\<open>SetDistanceToBoundary\<close>, with the short-circuit
  evaluation of \<^verbatim>\<open>&&\<close> and \<^verbatim>\<open>||\<close>: the cell is in the mask and one of the four cells
  next to it is not.
\<close>

definition boundary_test :: "int \<Rightarrow> bool list \<Rightarrow> int \<Rightarrow> error + bool" where
  "boundary_test w msk index =
     (case vec_at msk index of Inl e \<Rightarrow> Inl e | Inr m \<Rightarrow>
        if \<not> m then Inr False
        else
          (case vec_at msk (index - 1) of Inl e \<Rightarrow> Inl e | Inr m1 \<Rightarrow>
             if \<not> m1 then Inr True
             else
               (case vec_at msk (index + 1) of Inl e \<Rightarrow> Inl e | Inr m2 \<Rightarrow>
                  if \<not> m2 then Inr True
                  else
                    (case vec_at msk (index - w) of Inl e \<Rightarrow> Inl e | Inr m3 \<Rightarrow>
                       if \<not> m3 then Inr True
                       else
                         (case vec_at msk (index + w) of Inl e \<Rightarrow> Inl e
                          | Inr m4 \<Rightarrow> Inr (\<not> m4))))))"

text \<open>The body of the first loop: a boundary cell gets distance 0 and enters the queue.\<close>

definition seed_cell ::
  "int \<Rightarrow> bool list \<Rightarrow> int \<Rightarrow> int \<Rightarrow> error + real list \<times> water_front \<Rightarrow>
   error + real list \<times> water_front" where
  "seed_cell w msk y x st =
     (case st of Inl e \<Rightarrow> Inl e | Inr (d, q) \<Rightarrow>
        (let index = y * w + x
         in case boundary_test w msk index of Inl e \<Rightarrow> Inl e | Inr b \<Rightarrow>
              if b then
                (if 0 \<le> index \<and> index < int (length d)
                 then Inr (d[nat index := 0], (0, (x, y)) # q)
                 else Inl OutOfRange)
              else Inr (d, q)))"

text \<open>
  The body of the two loops over \<open>j\<close> and \<open>i\<close> in the second loop: the step from the
  cell \<open>(x, y)\<close>, popped with score \<open>current_score\<close>, to the cell \<open>(x + i, y + j)\<close>.
\<close>

definition relax ::
  "int \<Rightarrow> bool list \<Rightarrow> real \<Rightarrow> int \<Rightarrow> int \<Rightarrow> int \<Rightarrow> int \<Rightarrow>
   error + real list \<times> water_front \<Rightarrow> error + real list \<times> water_front" where
  "relax w msk current_score x y j i st =
     (if i = 0 \<and> j = 0 then st
      else
        case st of Inl e \<Rightarrow> Inl e | Inr (d, q) \<Rightarrow>
          (let ytmp = y + j;
               xtmp = x + i;
               new_index = ytmp * w + xtmp
           in case vec_at msk new_index of Inl e \<Rightarrow> Inl e | Inr m \<Rightarrow>
                if \<not> m then Inr (d, q)
                else
                  (let new_score = current_score + sqrt (real_of_int (i * i + j * j))
                   in case vec_at d new_index of Inl e \<Rightarrow> Inl e | Inr old \<Rightarrow>
                        if new_score < old
                        then Inr (d[nat new_index := new_score],
                                  (- new_score, (xtmp, ytmp)) # q)
                        else Inr (d, q))))"

text \<open>The loop \<^verbatim>\<open>while (!water_front.empty())\<close>; \<open>None\<close> is the loop that does not end.\<close>

partial_function (option) propagate ::
  "int \<Rightarrow> bool list \<Rightarrow> real list \<Rightarrow> water_front \<Rightarrow> (error + real list) option" where
  "propagate w msk d q =
     (if q = [] then Some (Inr d)
      else
        (let node = queue_top q;
             q' = queue_pop q;
             current_score = - fst node;
             x = fst (snd node);
             y = snd (snd node)
         in case fold (\<lambda>j. fold (relax w msk current_score x y j) [- 1..1]) [- 1..1]
                   (Inr (d, q')) of
              Inl e \<Rightarrow> Some (Inl e)
            | Inr (d', q'') \<Rightarrow> propagate w msk d' q''))"

declare propagate.simps [code]

definition SetDistanceToBoundary :: "int \<Rightarrow> int \<Rightarrow> bool list \<Rightarrow> (error + real list) option" where
  "SetDistanceToBoundary w h msk =
     (case fold (\<lambda>y. fold (seed_cell w msk y) [1..w - 2]) [1..h - 2]
             (Inr (replicate (nat (w * h)) float_max, [])) of
        Inl e \<Rightarrow> Some (Inl e)
      | Inr (d, q) \<Rightarrow> propagate w msk d q)"

text \<open>
  The grid graph of the statement: the cells inside the grid, the free cells (inside
  the mask), the source cells of the first loop, the 8-neighbourhood, the cost of one
  step, and the paths of free cells. A path is the list of its cells from the cell it
  reaches back to the source it starts from.
\<close>

definition in_grid :: "int \<Rightarrow> int \<Rightarrow> cell \<Rightarrow> bool" where
  "in_grid w h c \<longleftrightarrow> 0 \<le> fst c \<and> fst c < w \<and> 0 \<le> snd c \<and> snd c < h"

definition cell_index :: "int \<Rightarrow> cell \<Rightarrow> nat" where
  "cell_index w c = nat (snd c * w + fst c)"

definition free_cell :: "int \<Rightarrow> int \<Rightarrow> bool list \<Rightarrow> cell \<Rightarrow> bool" where
  "free_cell w h msk c \<longleftrightarrow> in_grid w h c \<and> msk ! cell_index w c"

definition is_source :: "int \<Rightarrow> int \<Rightarrow> bool list \<Rightarrow> cell \<Rightarrow> bool" where
  "is_source w h msk c \<longleftrightarrow>
     1 \<le> fst c \<and> fst c \<le> w - 2 \<and> 1 \<le> snd c \<and> snd c \<le> h - 2 \<and>
     msk ! cell_index w c \<and>
     (\<not> msk ! cell_index w (fst c - 1, snd c) \<or> \<not> msk ! cell_index w (fst c + 1, snd c) \<or>
      \<not> msk ! cell_index w (fst c, snd c - 1) \<or> \<not> msk ! cell_index w (fst c, snd c + 1))"

definition adjacent :: "cell \<Rightarrow> cell \<Rightarrow> bool" where
  "adjacent a b \<longleftrightarrow> a \<noteq> b \<and> \<bar>fst b - fst a\<bar> \<le> 1 \<and> \<bar>snd b - snd a\<bar> \<le> 1"

definition step_cost :: "cell \<Rightarrow> cell \<Rightarrow> real" where
  "step_cost a b =
     sqrt (real_of_int ((fst b - fst a) * (fst b - fst a) + (snd b - snd a) * (snd b - snd a)))"

fun path_cost :: "cell list \<Rightarrow> real" where
  "path_cost (a # b # p) = step_cost a b + path_cost (b # p)"
| "path_cost p = 0"

fun free_path :: "int \<Rightarrow> int \<Rightarrow> bool list \<Rightarrow> cell list \<Rightarrow> bool" where
  "free_path w h msk [] = False"
| "free_path w h msk [a] = is_source w h msk a"
| "free_path w h msk (a # b # p) =
     (free_cell w h msk a \<and> adjacent a b \<and> free_path w h msk (b # p))"

text \<open>The border of the grid is outside the mask, as \<^verbatim>\<open>SetMask\<close> leaves it.\<close>

definition border_clear :: "int \<Rightarrow> int \<Rightarrow> bool list \<Rightarrow> bool" where
  "border_clear w h msk \<longleftrightarrow>
     (\<forall>c. in_grid w h c \<and> (fst c = 0 \<or> fst c = w - 1 \<or> snd c = 0 \<or> snd c = h - 1) \<longrightarrow>
          \<not> msk ! cell_index w c)"

text \<open>
  The eight steps of the two loops over \<open>j\<close> and \<open>i\<close>, as pairs \<open>(j, i)\<close> in the order of
  the loops, and the neighbours of a cell that a step from it with score \<open>s\<close> improves:
  among the cells reached by the offsets \<open>os\<close>, and among all the neighbours.
\<close>

definition neighbour_offsets :: "(int \<times> int) list" where
  "neighbour_offsets = [(- 1, - 1), (- 1, 0), (- 1, 1), (0, - 1), (0, 1), (1, - 1), (1, 0), (1, 1)]"

definition improved :: "int \<Rightarrow> bool list \<Rightarrow> real \<Rightarrow> cell \<Rightarrow> (int \<times> int) list \<Rightarrow> real list \<Rightarrow> cell set" where
  "improved w msk s c os d =
     {n. (\<exists>(j, i) \<in> set os. n = (fst c + i, snd c + j)) \<and> msk ! cell_index w n \<and>
         s + step_cost c n < d ! cell_index w n}"

definition improvable :: "int \<Rightarrow> bool list \<Rightarrow> real \<Rightarrow> cell \<Rightarrow> real list \<Rightarrow> cell set" where
  "improvable w msk s c d =
     {n. adjacent c n \<and> msk ! cell_index w n \<and> s + step_cost c n < d ! cell_index w n}"

text \<open>
  The invariant of the loop \<^verbatim>\<open>while (!water_front.empty())\<close>, over the distances \<open>d\<close>,
  the set \<open>Q\<close> of the entries of the queue and the set \<open>F\<close> of the cells that have been
  popped with their final distance. Every finite distance is the cost of a free path;
  every entry of the queue is the negated cost of a free path to its cell, not below
  the distance of the cell; the distance of a popped cell is below every entry of the
  queue and its neighbours have been relaxed; every free cell with a finite distance
  that has not been popped has the entry of its distance in the queue.
\<close>

definition labels_ok :: "int \<Rightarrow> int \<Rightarrow> bool list \<Rightarrow> real list \<Rightarrow> bool" where
  "labels_ok w h msk d \<longleftrightarrow>
     length d = nat (w * h) \<and>
     (\<forall>c. in_grid w h c \<longrightarrow> d ! cell_index w c \<le> float_max) \<and>
     (\<forall>c. in_grid w h c \<and> d ! cell_index w c < float_max \<longrightarrow>
          (\<exists>p. free_path w h msk (c # p) \<and> path_cost (c # p) = d ! cell_index w c)) \<and>
     (\<forall>c. is_source w h msk c \<longrightarrow> d ! cell_index w c = 0)"

definition queue_ok :: "int \<Rightarrow> int \<Rightarrow> bool list \<Rightarrow> cell set \<Rightarrow> real list \<Rightarrow> (real \<times> cell) set \<Rightarrow> bool" where
  "queue_ok w h msk F d Q \<longleftrightarrow>
     (\<forall>(ns, c) \<in> Q.
        free_cell w h msk c \<and> d ! cell_index w c \<le> - ns \<and> - ns < float_max \<and>
        (\<exists>p. free_path w h msk (c # p) \<and> path_cost (c # p) = - ns) \<and>
        - ns \<le> sqrt 2 * real (card F))"

definition settled_ok :: "int \<Rightarrow> int \<Rightarrow> bool list \<Rightarrow> cell set \<Rightarrow> real list \<Rightarrow> (real \<times> cell) set \<Rightarrow> bool" where
  "settled_ok w h msk F d Q \<longleftrightarrow>
     finite F \<and>
     (\<forall>c \<in> F.
        free_cell w h msk c \<and> d ! cell_index w c \<le> sqrt 2 * real (card F) \<and>
        (\<forall>(ns, c') \<in> Q. d ! cell_index w c \<le> - ns) \<and>
        (\<forall>n. adjacent c n \<and> free_cell w h msk n \<longrightarrow>
             d ! cell_index w n \<le> d ! cell_index w c + step_cost c n))"

definition pending_ok :: "int \<Rightarrow> int \<Rightarrow> bool list \<Rightarrow> cell set \<Rightarrow> real list \<Rightarrow> (real \<times> cell) set \<Rightarrow> bool" where
  "pending_ok w h msk F d Q \<longleftrightarrow>
     (\<forall>c. free_cell w h msk c \<and> d ! cell_index w c < float_max \<and> c \<notin> F \<longrightarrow>
          (- (d ! cell_index w c), c) \<in> Q)"

definition wave_inv :: "int \<Rightarrow> int \<Rightarrow> bool list \<Rightarrow> cell set \<Rightarrow> real list \<Rightarrow> (real \<times> cell) set \<Rightarrow> bool" where
  "wave_inv w h msk F d Q \<longleftrightarrow>
     labels_ok w h msk d \<and> queue_ok w h msk F d Q \<and> settled_ok w h msk F d Q \<and>
     pending_ok w h msk F d Q"

text \<open>A mask of five by five cells: a block of three by three free cells inside the border.\<close>

definition block_mask :: "bool list" where
  "block_mask =
     [False, False, False, False, False,
      False, True, True, True, False,
      False, True, True, True, False,
      False, True, True, True, False,
      False, False, False, False, False]"

section \<open>Properties\<close>

subsection \<open>Binary floating point: the rounding error\<close>

lemma bit_length_nonpos: "n \<le> 0 \<Longrightarrow> bit_length n = 0"
  by (simp add: bit_length.simps)

lemma bit_length_pos: "0 < n \<Longrightarrow> bit_length n = 1 + bit_length (n div 2)"
  by (subst bit_length.simps) simp

lemma bit_length_nonneg: "0 \<le> bit_length n"
proof (induction n rule: bit_length.induct)
  case (1 n)
  show ?case
  proof (cases "n \<le> 0")
    case True
    then show ?thesis by (simp add: bit_length_nonpos)
  next
    case False
    with 1 show ?thesis by (simp add: bit_length_pos)
  qed
qed








lemma round_binary_zero [simp]: "round_binary p emin 0 = 0"
  by (simp add: round_binary_def Let_def round_even_def)



lemma float_round_zero [simp]: "float_round 0 = 0"
  by (simp add: float_round_def)











subsection \<open>Panorama: the rigid transforms\<close>

text \<open>
  The matrix that \<^verbatim>\<open>InitCameraParameters\<close> builds does invert the one it read, on
  homogeneous points, whenever the rotation block is orthonormal and the last row is
  \<open>(0, 0, 0, 1)\<close>.
\<close>

lemma global_to_local_inverts:
  fixes r00 r01 r02 r10 r11 r12 r20 r21 r22 t0 t1 t2 :: real
  assumes c0: "r00 * r00 + r10 * r10 + r20 * r20 = 1"
      and c1: "r01 * r01 + r11 * r11 + r21 * r21 = 1"
      and c2: "r02 * r02 + r12 * r12 + r22 * r22 = 1"
      and c01: "r00 * r01 + r10 * r11 + r20 * r21 = 0"
      and c02: "r00 * r02 + r10 * r12 + r20 * r22 = 0"
      and c12: "r01 * r02 + r11 * r12 + r21 * r22 = 0"
      and q: "q = InitCameraParameters
                ((r00, r01, r02, t0), (r10, r11, r12, t1), (r20, r21, r22, t2), (0, 0, 0, 1)) phi p"
  shows "mat4_times (global_to_local q) (mat4_times (local_to_global q) (x, y, z, 1)) = (x, y, z, 1)"
proof -
  have e0: "r00 * (r00 * x + r01 * y + r02 * z + t0) + r10 * (r10 * x + r11 * y + r12 * z + t1) +
            r20 * (r20 * x + r21 * y + r22 * z + t2) - (r00 * t0 + r10 * t1 + r20 * t2) = x"
    using c0 c01 c02 by algebra
  have e1: "r01 * (r00 * x + r01 * y + r02 * z + t0) + r11 * (r10 * x + r11 * y + r12 * z + t1) +
            r21 * (r20 * x + r21 * y + r22 * z + t2) - (r01 * t0 + r11 * t1 + r21 * t2) = y"
    using c1 c01 c12 by algebra
  have e2: "r02 * (r00 * x + r01 * y + r02 * z + t0) + r12 * (r10 * x + r11 * y + r12 * z + t1) +
            r22 * (r20 * x + r21 * y + r22 * z + t2) - (r02 * t0 + r12 * t1 + r22 * t2) = z"
    using c2 c02 c12 by algebra
  show ?thesis
    using e0 e1 e2 by (simp add: q InitCameraParameters_def mat4_times_def dot4_def)
qed

text \<open>
  Claim C1. \<^verbatim>\<open>GlobalToLocal (LocalToGlobal x) = x\<close> and the converse, for every point
  \<open>x\<close>. The code does not do this: \<^verbatim>\<open>LocalToGlobal\<close> returns the third component
  of its argument in place of the transformed one. For the camera translated by
  \<open>(0, 0, 1)\<close>, the origin is sent to itself by \<^verbatim>\<open>LocalToGlobal\<close>, and both round trips
  from the origin end at \<open>(0, 0, -1)\<close>.
\<close>

theorem LocalToGlobal_keeps_local_z:
  "GlobalToLocal translated_camera (LocalToGlobal translated_camera (0, 0, 0)) = (0, 0, - 1) \<and>
   LocalToGlobal translated_camera (GlobalToLocal translated_camera (0, 0, 0)) = (0, 0, - 1) \<and>
   LocalToGlobal translated_camera (0, 0, 0) = (0, 0, 0)"
  by (simp add: translated_camera_def InitCameraParameters_def GlobalToLocal_def
      LocalToGlobal_def mat4_times_def dot4_def)

subsection \<open>Panorama: projection\<close>

lemma theta_ratio_range: "0 \<le> theta_ratio t \<and> theta_ratio t < 1"
  by (auto simp: theta_ratio_def Let_def max_def min_def)


text \<open>
  Claim C8. In \<^verbatim>\<open>Project\<close> the azimuth ratio is clamped to \<open>[0, 1]\<close> and a ratio of
  exactly 1 becomes 0, so the ratio lies in \<open>[0, 1)\<close>, an azimuth at or beyond the seam
  \<open>2\<pi>\<close> gives ratio 0, and the horizontal pixel coordinate \<open>u\<close> of a panorama of
  positive width satisfies \<open>0 \<le> u < width\<close>.
\<close>

theorem Project_column_in_range:
  "0 \<le> theta_ratio t \<and> theta_ratio t < 1 \<and>
   (2 * pi \<le> t \<longrightarrow> theta_ratio t = 0) \<and>
   (0 < width p \<longrightarrow>
      0 \<le> fst (Project p global) \<and> fst (Project p global) < real_of_int (width p))"
proof -
  have r: "0 \<le> theta_ratio s \<and> theta_ratio s < 1" for s
    by (rule theta_ratio_range)
  have seam: "theta_ratio t = 0" if "2 * pi \<le> t"
  proof -
    have "1 \<le> t / (2 * pi)" using that by (simp add: field_simps)
    then show ?thesis by (simp add: theta_ratio_def Let_def max_def min_def)
  qed
  have col: "0 \<le> fst (Project p global) \<and> fst (Project p global) < real_of_int (width p)"
    if w: "0 < width p"
  proof -
    obtain lx ly lz where l: "GlobalToLocal p global = (lx, ly, lz)"
      by (cases "GlobalToLocal p global") auto
    have u: "fst (Project p global) = theta_ratio (azimuth (lx, ly, lz)) * real_of_int (width p)"
      by (simp add: Project_def l Let_def)
    have "theta_ratio (azimuth (lx, ly, lz)) * real_of_int (width p) < 1 * real_of_int (width p)"
      using r [of "azimuth (lx, ly, lz)"] w by (intro mult_strict_right_mono) auto
    moreover have "0 \<le> theta_ratio (azimuth (lx, ly, lz)) * real_of_int (width p)"
      using r [of "azimuth (lx, ly, lz)"] w by simp
    ultimately show ?thesis using u by simp
  qed
  show ?thesis using r seam col by blast
qed

theorem Project_column_in_range_witness:
  "0 < width seam_panorama \<and>
   0 \<le> fst (Project seam_panorama (1, 0, 0)) \<and>
   fst (Project seam_panorama (1, 0, 0)) < 2"
proof -
  have w: "width seam_panorama = 2" by (simp add: seam_panorama_def)
  show ?thesis
    using Project_column_in_range [of 0 seam_panorama "(1, 0, 0)"] by (simp add: w)
qed

subsection \<open>Panorama: bilinear sampling\<close>







subsection \<open>The visibility distance\<close>

lemma unmatched_weight_Nil [simp]: "unmatched_weight [] other = 0"
  by (simp add: unmatched_weight_def)

lemma unmatched_weight_Nil2 [simp]: "unmatched_weight sig [] = sum_list (map snd sig)"
  by (simp add: unmatched_weight_def)

lemma unmatched_weight_Cons:
  "unmatched_weight (e # sig) other =
     (if fst e \<in> set (map fst other) then 0 else snd e) + unmatched_weight sig other"
  by (simp add: unmatched_weight_def)

lemma unmatched_weight_drop_other:
  "\<forall>e \<in> set sig. fst e \<noteq> fst r \<Longrightarrow>
   unmatched_weight sig (r # other) = unmatched_weight sig other"
  unfolding unmatched_weight_def
  by (rule arg_cong [where f = "\<lambda>x. sum_list (map snd x)"], rule filter_cong) auto

lemma ascending_Cons:
  "ascending (e # sig) \<longleftrightarrow> (\<forall>x \<in> set sig. fst e < fst x) \<and> ascending sig"
  by (auto simp: ascending_def)

lemma VisibilityDistance_loop_unmatched:
  "ascending lhs \<Longrightarrow> ascending rhs \<Longrightarrow>
   VisibilityDistance_loop lhs rhs d = d + unmatched_weight lhs rhs + unmatched_weight rhs lhs"
proof (induction lhs rhs d rule: VisibilityDistance_loop.induct)
  case (1 distance)
  then show ?case by simp
next
  case (2 r rs distance)
  then show ?case by (simp add: ascending_Cons)
next
  case (3 l ls distance)
  then show ?case by (simp add: ascending_Cons)
next
  case (4 l ls r rs distance)
  from "4.prems" have al: "\<forall>x \<in> set ls. fst l < fst x" and als: "ascending ls"
    and ar: "\<forall>x \<in> set rs. fst r < fst x" and ars: "ascending rs"
    by (simp_all add: ascending_Cons)
  show ?case
  proof (cases "fst l = fst r")
    case True
    have "unmatched_weight (l # ls) (r # rs) = unmatched_weight ls rs"
      using True al by (auto simp: unmatched_weight_Cons intro!: unmatched_weight_drop_other)
    moreover have "unmatched_weight (r # rs) (l # ls) = unmatched_weight rs ls"
      using True ar by (auto simp: unmatched_weight_Cons intro!: unmatched_weight_drop_other)
    ultimately show ?thesis
      using True "4.IH"(1) [OF True als ars] by simp
  next
    case False
    show ?thesis
    proof (cases "fst l < fst r")
      case True
      have lr: "fst l \<notin> set (map fst (r # rs))" using True ar by auto
      have "unmatched_weight (l # ls) (r # rs) = snd l + unmatched_weight ls (r # rs)"
        using lr by (simp add: unmatched_weight_Cons)
      moreover have "unmatched_weight (r # rs) (l # ls) = unmatched_weight (r # rs) ls"
        using True ar by (intro unmatched_weight_drop_other) auto
      ultimately show ?thesis
        using False True "4.IH"(2) [OF False True als "4.prems"(2)] by simp
    next
      case ge: False
      with False have gt: "fst r < fst l" by simp
      have rl: "fst r \<notin> set (map fst (l # ls))" using gt al by auto
      have "unmatched_weight (r # rs) (l # ls) = snd r + unmatched_weight rs (l # ls)"
        using rl by (simp add: unmatched_weight_Cons)
      moreover have "unmatched_weight (l # ls) (r # rs) = unmatched_weight (l # ls) rs"
        using gt al by (intro unmatched_weight_drop_other) auto
      ultimately show ?thesis
        using False ge "4.IH"(3) [OF False ge "4.prems"(1) ars] by simp
    qed
  qed
qed

text \<open>
  Claim C2, as amended. For signatures sorted strictly ascending by boundary index,
  \<^verbatim>\<open>VisibilityDistance\<close> is half the sum of the weights of the entries whose index
  occurs in only one of the two signatures; an index that occurs in both contributes
  0, whatever the two weights are.
\<close>

theorem VisibilityDistance_unmatched:
  "ascending lhs \<Longrightarrow> ascending rhs \<Longrightarrow>
   VisibilityDistance lhs rhs = (unmatched_weight lhs rhs + unmatched_weight rhs lhs) / 2"
  by (simp add: VisibilityDistance_def VisibilityDistance_loop_unmatched)

theorem VisibilityDistance_unmatched_witness:
  "ascending [(0, 1)] \<and> ascending [(0, 1 / 2), (1, 1 / 2)] \<and>
   VisibilityDistance [(0, 1)] [(0, 1 / 2), (1, 1 / 2)] = 1 / 4"
proof -
  have a: "ascending [(0, 1)]" and b: "ascending [(0, 1 / 2), (1, 1 / 2)]"
    by (simp_all add: ascending_def)
  show ?thesis
    using a b VisibilityDistance_unmatched [OF a b] by (simp add: unmatched_weight_def)
qed

text \<open>
  Claim C2 as stated (half the L1 distance of the sparse vectors) fails where an index
  occurs in both signatures with different weights: for \<open>[(0, 1)]\<close> and
  \<open>[(0, 1/2), (1, 1/2)]\<close> the code returns \<open>1/4\<close>, half the L1 distance is \<open>1/2\<close>.
\<close>

theorem VisibilityDistance_not_half_L1:
  "ascending [(0, 1)] \<and> ascending [(0, 1 / 2), (1, 1 / 2)] \<and>
   VisibilityDistance [(0, 1)] [(0, 1 / 2), (1, 1 / 2)] = 1 / 4 \<and>
   half_L1 [(0, 1)] [(0, 1 / 2), (1, 1 / 2)] = 1 / 2 \<and>
   VisibilityDistance [(0, 1)] [(0, 1 / 2), (1, 1 / 2)] \<noteq> half_L1 [(0, 1)] [(0, 1 / 2), (1, 1 / 2)]"
  by (simp add: ascending_def VisibilityDistance_def half_L1_def weight_at_def)

subsection \<open>The visibility distance in float arithmetic\<close>






















subsection \<open>The average distance of the sweep points\<close>




















subsection \<open>The ranges of the frame\<close>

lemma count_list_insort: "count_list (insort a xs) x = count_list (a # xs) x"
  by (induction xs) auto

lemma count_list_sort: "count_list (sort xs) x = count_list xs x"
  by (induction xs) (simp_all add: count_list_insort)

lemma sort_is_standard: "standard_nth_element (\<lambda>n. sort)"
  unfolding standard_nth_element_def nth_element_post_def
  by (auto simp: count_list_sort intro: sorted_nth_mono)

lemma count_list_twice:
  assumes "i < j" "j < length ys" "ys ! i = x" "ys ! j = x"
  shows "2 \<le> count_list ys x"
proof -
  have ys: "ys = take j ys @ ys ! j # drop (Suc j) ys"
    using assms(2) by (simp add: id_take_nth_drop)
  have "x \<in> set (take j ys)"
    using assms by (auto simp: in_set_conv_nth intro!: exI [of _ i])
  then have "1 \<le> count_list (take j ys) x"
    using count_list_0_iff [of "take j ys" x] by simp
  moreover have "count_list ys x =
      count_list (take j ys) x + count_list (ys ! j # drop (Suc j) ys) x"
    by (subst ys) simp
  ultimately show ?thesis using assms(4) by simp
qed

lemma nth_element_twice:
  assumes std: "standard_nth_element nth_element"
    and m: "m \<le> length xs" and n: "n \<le> length xs"
  shows "nth_element_post n xs (nth_element n (nth_element m xs))"
proof -
  from std m have p1: "nth_element_post m xs (nth_element m xs)"
    by (simp add: standard_nth_element_def)
  then have len: "length (nth_element m xs) = length xs"
    by (simp add: nth_element_post_def)
  with std n have p2: "nth_element_post n (nth_element m xs) (nth_element n (nth_element m xs))"
    by (simp add: standard_nth_element_def)
  from p1 p2 show ?thesis by (simp add: nth_element_post_def)
qed

lemma percentile_range_constant:
  assumes std: "standard_nth_element nth_element" and k: "0 < k"
  shows "percentile_range nth_element (replicate k a) = Inr (a, a)"
proof -
  let ?xs = "replicate k a"
  let ?p5 = "k * 1 div 100" and ?p95 = "k * 99 div 100"
  let ?ys = "nth_element ?p95 (nth_element ?p5 ?xs)"
  have srt: "sort ?xs = ?xs" by (simp add: sorted_sort_id)
  from k have lt: "?p5 < k" "?p95 < k" by simp_all
  from nth_element_twice [OF std, of ?p5 ?xs ?p95] lt
  have post: "nth_element_post ?p95 ?xs ?ys" by simp
  then have len: "length ?ys = k" and cnt: "\<And>x. count_list ?ys x = count_list ?xs x"
    by (simp_all add: nth_element_post_def)
  have all: "?ys ! i = a" if "i < k" for i
  proof -
    from that len have "?ys ! i \<in> set ?ys" by simp
    then have "count_list ?ys (?ys ! i) \<noteq> 0" by (simp add: count_list_0_iff)
    with cnt have "count_list ?xs (?ys ! i) \<noteq> 0" by simp
    then have "?ys ! i \<in> set ?xs" by (simp add: count_list_0_iff)
    then show ?thesis by simp
  qed
  show ?thesis
    unfolding percentile_range_def Let_def srt
    using lt len all by simp
qed

lemma percentile_range_one_above:
  assumes std: "standard_nth_element nth_element" and ab: "a < b"
  shows "percentile_range nth_element (replicate 99 a @ [b]) =
           Inr (a - (b - a) * 5 / 100, b + (b - a) * 5 / 100)"
proof -
  let ?xs = "replicate 99 a @ [b]"
  let ?ys = "nth_element 99 (nth_element 1 ?xs)"
  have srt: "sort ?xs = ?xs"
    using ab by (intro sorted_sort_id) (simp add: sorted_append)
  from nth_element_twice [OF std, of 1 ?xs 99]
  have post: "nth_element_post 99 ?xs ?ys" by simp
  then have len: "length ?ys = 100" and cnt: "\<And>x. count_list ?ys x = count_list ?xs x"
    and part: "\<And>i. i < 99 \<Longrightarrow> ?ys ! i \<le> ?ys ! 99"
    by (simp_all add: nth_element_post_def)
  have mem: "?ys ! i = a \<or> ?ys ! i = b" if "i < 100" for i
  proof -
    from that len have "?ys ! i \<in> set ?ys" by simp
    then have "count_list ?ys (?ys ! i) \<noteq> 0" by (simp add: count_list_0_iff)
    with cnt have "count_list ?xs (?ys ! i) \<noteq> 0" by simp
    then have "?ys ! i \<in> set ?xs" by (simp only: count_list_0_iff not_not)
    then show ?thesis by auto
  qed
  have "count_list ?xs b = 1"
    using ab by simp
  with cnt [of b] have cb: "count_list ?ys b = 1" by (simp only:)
  have top: "?ys ! 99 = b"
  proof (rule ccontr)
    assume "?ys ! 99 \<noteq> b"
    with mem [of 99] have t: "?ys ! 99 = a" by simp
    from cb have "b \<in> set ?ys"
      using count_list_0_iff [of ?ys b] by simp
    then obtain j where j: "j < 100" "?ys ! j = b"
      using len by (auto simp: in_set_conv_nth)
    with t have "j \<noteq> 99" using ab by auto
    with j have "j < 99" by simp
    from part [OF this] j t ab show False by simp
  qed
  have low: "?ys ! 1 = a"
  proof (rule ccontr)
    assume "?ys ! 1 \<noteq> a"
    with mem [of 1] have "?ys ! 1 = b" by simp
    from count_list_twice [of 1 99 ?ys b, OF _ _ this top] len cb show False by simp
  qed
  show ?thesis
    unfolding percentile_range_def Let_def srt
    using len top low by simp
qed

lemma hundred_points_histograms:
  "histogram_of hundred_points (axes axis_frame ! 0) = replicate 99 1 @ [2]"
  "histogram_of hundred_points (axes axis_frame ! 1) = replicate 100 0"
  "histogram_of hundred_points (axes axis_frame ! 2) = replicate 100 0"
proof -
  have r: "replicate 100 (0 :: real) = replicate 99 0 @ [0]"
  proof -
    have "replicate (99 + 1) (0 :: real) = replicate 99 0 @ replicate 1 0"
      by (rule replicate_add)
    moreover have "replicate 1 (0 :: real) = [0]" by simp
    ultimately show ?thesis by (simp only: numeral_plus_one semiring_norm)
  qed
  show "histogram_of hundred_points (axes axis_frame ! 0) = replicate 99 1 @ [2]"
    by (simp add: histogram_of_def hundred_points_def axis_frame_def point_at_def vec3_dot_def)
  show "histogram_of hundred_points (axes axis_frame ! 1) = replicate 100 0"
    unfolding r
    by (simp add: histogram_of_def hundred_points_def axis_frame_def point_at_def vec3_dot_def)
  show "histogram_of hundred_points (axes axis_frame ! 2) = replicate 100 0"
    unfolding r
    by (simp add: histogram_of_def hundred_points_def axis_frame_def point_at_def vec3_dot_def)
qed

text \<open>
  Claim C3. \<^verbatim>\<open>SetRanges\<close> sets the range of each axis to the 5th and 95th percentiles
  of the projected coordinates, widened by 5 percent of their difference. The code
  does not do this: it takes the positions \<open>size * 1 / 100\<close> and \<open>size * 99 / 100\<close> of
  the sorted coordinates, and reads both after the second \<^verbatim>\<open>nth_element\<close>. For a
  hundred points with first coordinates 1, ninety-nine times, and 2, the 5th and the
  95th percentile are both 1, and whatever \<^verbatim>\<open>nth_element\<close> of the standard is used, the
  code sets the range of the first axis to \<open>(0.95, 2.05)\<close>: the value 1 and the
  maximum 2, widened by \<open>0.05 * (2 - 1)\<close>.
\<close>

theorem SetRanges_first_and_last_percent:
  assumes "standard_nth_element nth_element"
  shows "map_sum id ranges (SetRanges nth_element hundred_points 1 axis_frame) =
           Inr [(19 / 20, 41 / 20), (0, 0), (0, 0)] \<and>
         map_sum id frame_size (SetRanges nth_element hundred_points 1 axis_frame) =
           Inr [55, 0, 0] \<and>
         sort (histogram_of hundred_points (axes axis_frame ! 0)) ! (100 * 5 div 100) = 1 \<and>
         sort (histogram_of hundred_points (axes axis_frame ! 0)) ! (100 * 95 div 100) = 1 \<and>
         length (histogram_of hundred_points (axes axis_frame ! 0)) = 100"
proof -
  have r0: "percentile_range nth_element (replicate 99 1 @ [2]) = Inr (19 / 20, 41 / 20)"
    using percentile_range_one_above [OF assms, of 1 2] by simp
  have r1: "percentile_range nth_element (replicate 100 0) = Inr (0, 0)"
    using percentile_range_constant [OF assms, of 100 0] by simp
  have srt: "sort (replicate 99 1 @ [2 :: real]) = replicate 99 1 @ [2]"
    by (intro sorted_sort_id) (simp add: sorted_append)
  have n5: "(replicate 99 1 @ [2 :: real]) ! 5 = 1" "(replicate 99 1 @ [2 :: real]) ! 95 = 1"
    by (simp_all add: nth_append)
  have c: "c_round 55 = 55" "c_round 0 = 0" by (simp_all add: c_round_def)
  show ?thesis
    unfolding SetRanges_def hundred_points_histograms r0 r1 srt
    using n5 c by (simp add: Let_def)
qed

theorem SetRanges_first_and_last_percent_witness:
  "standard_nth_element (\<lambda>n. sort) \<and>
   map_sum id ranges (SetRanges (\<lambda>n. sort) hundred_points 1 axis_frame) =
     Inr [(19 / 20, 41 / 20), (0, 0), (0, 0)]"
  using SetRanges_first_and_last_percent [OF sort_is_standard] sort_is_standard by simp

subsection \<open>The Gaussian blur: the denominator is never zero\<close>

lemma index_in_range:
  fixes x y w h :: int
  assumes "0 \<le> x" "x < w" "0 \<le> y" "y < h"
  shows "0 \<le> y * w + x \<and> y * w + x < w * h"
proof -
  have "0 \<le> y * w" using assms by simp
  moreover have "y * w + w \<le> h * w"
  proof -
    have "(y + 1) * w \<le> h * w" using assms by (intro mult_right_mono) simp_all
    then show ?thesis by (simp add: algebra_simps)
  qed
  ultimately show ?thesis using assms by (simp add: algebra_simps)
qed

lemma fold_fold_product:
  "fold (\<lambda>y. fold (f y) xs) ys = fold (\<lambda>(y, x). f y x) (List.product ys xs)"
proof (induction ys)
  case Nil
  then show ?case by simp
next
  case (Cons y ys)
  have "fold (\<lambda>(y, x). f y x) (map (Pair y) xs) = fold (f y) xs"
    by (simp add: fold_map comp_def)
  with Cons show ?case by (simp add: comp_def)
qed

lemma fold_update_length:
  "length (fold (\<lambda>e k. k[idx e := val e]) es k) = length k"
  by (induction es arbitrary: k) simp_all

lemma fold_update_other:
  "n \<notin> idx ` set es \<Longrightarrow> fold (\<lambda>e k. k[idx e := val e]) es k ! n = k ! n"
  by (induction es arbitrary: k) auto

lemma fold_update_nth:
  "distinct (map idx es) \<Longrightarrow> e \<in> set es \<Longrightarrow> idx e < length k \<Longrightarrow>
   fold (\<lambda>e k. k[idx e := val e]) es k ! idx e = val e"
proof (induction es arbitrary: k)
  case Nil
  then show ?case by simp
next
  case (Cons a es)
  show ?case
  proof (cases "e \<in> set es")
    case True
    with Cons show ?thesis by simp
  next
    case False
    with Cons.prems have "e = a" and "idx a \<notin> idx ` set es" by auto
    with Cons.prems show ?thesis by (simp add: fold_update_other)
  qed
qed

lemma kernel_index_bounds:
  assumes "0 \<le> hs" "- hs \<le> j" "j \<le> hs" "- hs \<le> i" "i \<le> hs"
  shows "0 \<le> kernel_index hs j i \<and> kernel_index hs j i < (2 * hs + 1) * (2 * hs + 1)"
  using index_in_range [of "i + hs" "2 * hs + 1" "j + hs" "2 * hs + 1"] assms
  by (simp add: kernel_index_def)

lemma kernel_index_inj:
  assumes "0 \<le> hs" "- hs \<le> i" "i \<le> hs" "- hs \<le> i'" "i' \<le> hs"
    and eq: "kernel_index hs j i = kernel_index hs j' i'"
  shows "j = j' \<and> i = i'"
proof -
  let ?s = "2 * hs + 1"
  have s: "0 < ?s" using assms by simp
  have b: "0 \<le> i + hs" "i + hs < ?s" "0 \<le> i' + hs" "i' + hs < ?s" using assms by simp_all
  from eq have e: "(j + hs) * ?s + (i + hs) = (j' + hs) * ?s + (i' + hs)"
    by (simp add: kernel_index_def)
  have "((j + hs) * ?s + (i + hs)) div ?s = j + hs" using b s by simp
  moreover have "((j' + hs) * ?s + (i' + hs)) div ?s = j' + hs" using b s by simp
  ultimately have j: "j = j'" using e by simp
  with e show ?thesis by simp
qed

lemma BlurField_kernel_props:
  assumes hs: "0 \<le> \<lceil>2 * sigma\<rceil>"
  shows "length (BlurField_kernel sigma) = nat ((2 * \<lceil>2 * sigma\<rceil> + 1) * (2 * \<lceil>2 * sigma\<rceil> + 1))"
    and "- \<lceil>2 * sigma\<rceil> \<le> j \<Longrightarrow> j \<le> \<lceil>2 * sigma\<rceil> \<Longrightarrow> - \<lceil>2 * sigma\<rceil> \<le> i \<Longrightarrow> i \<le> \<lceil>2 * sigma\<rceil> \<Longrightarrow>
         vec_at (BlurField_kernel sigma) (kernel_index \<lceil>2 * sigma\<rceil> j i) =
           Inr (exp (real_of_int (- (i * i + j * j)) / (2 * sigma * sigma)))"
proof -
  let ?hs = "\<lceil>2 * sigma\<rceil>"
  let ?idx = "\<lambda>(y, x). nat (kernel_index ?hs y x)"
  let ?val = "\<lambda>(y, x). exp (real_of_int (- (x * x + y * y)) / (2 * sigma * sigma))"
  let ?es = "List.product [- ?hs..?hs] [- ?hs..?hs]"
  let ?k0 = "replicate (nat ((2 * ?hs + 1) * (2 * ?hs + 1))) (0::real)"
  have K: "BlurField_kernel sigma = fold (\<lambda>e k. k[?idx e := ?val e]) ?es ?k0"
    by (simp add: BlurField_kernel_def fold_fold_product Let_def case_prod_unfold)
  show len: "length (BlurField_kernel sigma) = nat ((2 * ?hs + 1) * (2 * ?hs + 1))"
    unfolding K by (simp add: fold_update_length)
  have inj: "inj_on ?idx (set ?es)"
  proof (rule inj_onI)
    fix a b assume a: "a \<in> set ?es" and b: "b \<in> set ?es" and eq: "?idx a = ?idx b"
    obtain j i where [simp]: "a = (j, i)" by (cases a)
    obtain j' i' where [simp]: "b = (j', i')" by (cases b)
    from a b have r: "- ?hs \<le> j" "j \<le> ?hs" "- ?hs \<le> i" "i \<le> ?hs"
      "- ?hs \<le> j'" "j' \<le> ?hs" "- ?hs \<le> i'" "i' \<le> ?hs" by simp_all
    from kernel_index_bounds [OF hs r(1-4)] kernel_index_bounds [OF hs r(5-8)]
    have "0 \<le> kernel_index ?hs j i" "0 \<le> kernel_index ?hs j' i'" by simp_all
    moreover from eq have "nat (kernel_index ?hs j i) = nat (kernel_index ?hs j' i')" by simp
    ultimately have "kernel_index ?hs j i = kernel_index ?hs j' i'" by linarith
    from kernel_index_inj [OF hs r(3,4) r(7,8) this] show "a = b" by simp
  qed
  have "distinct ?es" by (simp add: distinct_product)
  with inj have dist: "distinct (map ?idx ?es)"
    unfolding distinct_map by blast
  show "vec_at (BlurField_kernel sigma) (kernel_index ?hs j i) =
           Inr (exp (real_of_int (- (i * i + j * j)) / (2 * sigma * sigma)))"
    if r: "- ?hs \<le> j" "j \<le> ?hs" "- ?hs \<le> i" "i \<le> ?hs"
  proof -
    have mem: "(j, i) \<in> set ?es" using r by simp
    from kernel_index_bounds [OF hs r]
    have b: "0 \<le> kernel_index ?hs j i" "kernel_index ?hs j i < (2 * ?hs + 1) * (2 * ?hs + 1)"
      by simp_all
    then have lt: "?idx (j, i) < length ?k0" by simp
    from fold_update_nth [of ?idx ?es "(j, i)" ?k0 ?val, OF dist mem lt]
    have "BlurField_kernel sigma ! nat (kernel_index ?hs j i) =
            exp (real_of_int (- (i * i + j * j)) / (2 * sigma * sigma))"
      unfolding K by simp
    with b len show ?thesis by (simp add: vec_at_def)
  qed
qed

lemma BlurField_tap_fold:
  assumes K: "\<And>j i. - hs \<le> j \<Longrightarrow> j \<le> hs \<Longrightarrow> - hs \<le> i \<Longrightarrow> i \<le> hs \<Longrightarrow>
               \<exists>k. vec_at kern (kernel_index hs j i) = Inr k \<and> 0 \<le> k \<and> (j = 0 \<and> i = 0 \<longrightarrow> k = 1)"
    and lm: "length msk = nat (w * h)" and lf: "length old_field = nat (w * h)"
    and y: "0 \<le> ytmp" "ytmp < h" and j: "- hs \<le> j" "j \<le> hs"
    and ts: "\<forall>i \<in> set ts. - hs \<le> i \<and> i \<le> hs"
  shows "\<exists>n' d'. fold (BlurField_tap w msk kern old_field hs x ytmp j) ts (Inr (n, d)) = Inr (n', d') \<and>
           d \<le> d' \<and>
           (j = 0 \<and> 0 \<in> set ts \<and> 0 \<le> x \<and> x < w \<and> msk ! nat (ytmp * w + x) \<longrightarrow> d + 1 \<le> d')"
  using ts
proof (induction ts arbitrary: n d)
  case Nil
  then show ?case by simp
next
  case (Cons i ts)
  from Cons.prems have i: "- hs \<le> i" "i \<le> hs" and rest: "\<forall>i \<in> set ts. - hs \<le> i \<and> i \<le> hs"
    by simp_all
  from K [OF j i] obtain k where k: "vec_at kern (kernel_index hs j i) = Inr k" "0 \<le> k"
    "j = 0 \<and> i = 0 \<longrightarrow> k = 1" by blast
  have step: "\<exists>n1 d1. BlurField_tap w msk kern old_field hs x ytmp j i (Inr (n, d)) = Inr (n1, d1) \<and>
                d \<le> d1 \<and>
                (j = 0 \<and> i = 0 \<and> 0 \<le> x \<and> x < w \<and> msk ! nat (ytmp * w + x) \<longrightarrow> d + 1 \<le> d1)"
  proof (cases "x + i < 0 \<or> w \<le> x + i")
    case True
    then show ?thesis by (auto simp: BlurField_tap_def)
  next
    case False
    then have xr: "0 \<le> x + i" "x + i < w" by simp_all
    from index_in_range [OF xr y]
    have ir: "0 \<le> ytmp * w + (x + i)" "ytmp * w + (x + i) < w * h" by simp_all
    then have m: "vec_at msk (ytmp * w + (x + i)) = Inr (msk ! nat (ytmp * w + (x + i)))"
      and f: "vec_at old_field (ytmp * w + (x + i)) = Inr (old_field ! nat (ytmp * w + (x + i)))"
      using lm lf by (simp_all add: vec_at_def)
    show ?thesis
      using False k m f by (auto simp: BlurField_tap_def Let_def)
  qed
  then obtain n1 d1 where s1: "BlurField_tap w msk kern old_field hs x ytmp j i (Inr (n, d)) = Inr (n1, d1)"
    and d1: "d \<le> d1"
    and c1: "j = 0 \<and> i = 0 \<and> 0 \<le> x \<and> x < w \<and> msk ! nat (ytmp * w + x) \<longrightarrow> d + 1 \<le> d1"
    by blast
  from Cons.IH [OF rest, of n1 d1] obtain n' d' where
    r: "fold (BlurField_tap w msk kern old_field hs x ytmp j) ts (Inr (n1, d1)) = Inr (n', d')"
    and d': "d1 \<le> d'"
    and c': "j = 0 \<and> 0 \<in> set ts \<and> 0 \<le> x \<and> x < w \<and> msk ! nat (ytmp * w + x) \<longrightarrow> d1 + 1 \<le> d'"
    by blast
  have "fold (BlurField_tap w msk kern old_field hs x ytmp j) (i # ts) (Inr (n, d)) = Inr (n', d')"
    using s1 r by simp
  moreover have "d \<le> d'" using d1 d' by simp
  moreover have "d + 1 \<le> d'"
    if "j = 0 \<and> 0 \<in> set (i # ts) \<and> 0 \<le> x \<and> x < w \<and> msk ! nat (ytmp * w + x)"
  proof (cases "i = 0")
    case True
    with that c1 d' show ?thesis by simp
  next
    case False
    with that c' d1 show ?thesis by simp
  qed
  ultimately show ?case by blast
qed

lemma BlurField_row_fold:
  assumes K: "\<And>j i. - hs \<le> j \<Longrightarrow> j \<le> hs \<Longrightarrow> - hs \<le> i \<Longrightarrow> i \<le> hs \<Longrightarrow>
               \<exists>k. vec_at kern (kernel_index hs j i) = Inr k \<and> 0 \<le> k \<and> (j = 0 \<and> i = 0 \<longrightarrow> k = 1)"
    and lm: "length msk = nat (w * h)" and lf: "length old_field = nat (w * h)"
    and hs: "0 \<le> hs"
    and js: "\<forall>j \<in> set js. - hs \<le> j \<and> j \<le> hs"
  shows "\<exists>n' d'. fold (BlurField_row w h msk kern old_field hs x y) js (Inr (n, d)) = Inr (n', d') \<and>
           d \<le> d' \<and>
           (0 \<in> set js \<and> 0 \<le> x \<and> x < w \<and> 0 \<le> y \<and> y < h \<and> msk ! nat (y * w + x) \<longrightarrow> d + 1 \<le> d')"
  using js
proof (induction js arbitrary: n d)
  case Nil
  then show ?case by simp
next
  case (Cons j js)
  from Cons.prems have j: "- hs \<le> j" "j \<le> hs" and rest: "\<forall>j \<in> set js. - hs \<le> j \<and> j \<le> hs"
    by simp_all
  have step: "\<exists>n1 d1. BlurField_row w h msk kern old_field hs x y j (Inr (n, d)) = Inr (n1, d1) \<and>
                d \<le> d1 \<and>
                (j = 0 \<and> 0 \<le> x \<and> x < w \<and> 0 \<le> y \<and> y < h \<and> msk ! nat (y * w + x) \<longrightarrow> d + 1 \<le> d1)"
  proof (cases "y + j < 0 \<or> h \<le> y + j")
    case True
    then show ?thesis by (auto simp: BlurField_row_def)
  next
    case False
    then have yr: "0 \<le> y + j" "y + j < h" by simp_all
    have all: "\<forall>i \<in> set [- hs..hs]. - hs \<le> i \<and> i \<le> hs" by simp
    from BlurField_tap_fold [of hs kern msk w h old_field "y + j" j "[- hs..hs]" x n d,
        OF K lm lf yr j all]
    obtain n1 d1 where
      t: "fold (BlurField_tap w msk kern old_field hs x (y + j) j) [- hs..hs] (Inr (n, d)) = Inr (n1, d1)"
      and d1: "d \<le> d1"
      and c1: "j = 0 \<and> 0 \<in> set [- hs..hs] \<and> 0 \<le> x \<and> x < w \<and> msk ! nat ((y + j) * w + x) \<longrightarrow> d + 1 \<le> d1"
      by blast
    have "BlurField_row w h msk kern old_field hs x y j (Inr (n, d)) = Inr (n1, d1)"
      using False t by (simp add: BlurField_row_def Let_def)
    moreover have "d + 1 \<le> d1" if "j = 0 \<and> 0 \<le> x \<and> x < w \<and> 0 \<le> y \<and> y < h \<and> msk ! nat (y * w + x)"
      using that c1 hs by simp
    ultimately show ?thesis using d1 by blast
  qed
  then obtain n1 d1 where s1: "BlurField_row w h msk kern old_field hs x y j (Inr (n, d)) = Inr (n1, d1)"
    and d1: "d \<le> d1"
    and c1: "j = 0 \<and> 0 \<le> x \<and> x < w \<and> 0 \<le> y \<and> y < h \<and> msk ! nat (y * w + x) \<longrightarrow> d + 1 \<le> d1"
    by blast
  from Cons.IH [OF rest, of n1 d1] obtain n' d' where
    r: "fold (BlurField_row w h msk kern old_field hs x y) js (Inr (n1, d1)) = Inr (n', d')"
    and d': "d1 \<le> d'"
    and c': "0 \<in> set js \<and> 0 \<le> x \<and> x < w \<and> 0 \<le> y \<and> y < h \<and> msk ! nat (y * w + x) \<longrightarrow> d1 + 1 \<le> d'"
    by blast
  have "fold (BlurField_row w h msk kern old_field hs x y) (j # js) (Inr (n, d)) = Inr (n', d')"
    using s1 r by simp
  moreover have "d \<le> d'" using d1 d' by simp
  moreover have "d + 1 \<le> d'"
    if "0 \<in> set (j # js) \<and> 0 \<le> x \<and> x < w \<and> 0 \<le> y \<and> y < h \<and> msk ! nat (y * w + x)"
  proof (cases "j = 0")
    case True
    with that c1 d' show ?thesis by simp
  next
    case False
    with that c' d1 show ?thesis by simp
  qed
  ultimately show ?case by blast
qed

lemma BlurField_kernel_taps:
  assumes "0 < sigma" "- \<lceil>2 * sigma\<rceil> \<le> j" "j \<le> \<lceil>2 * sigma\<rceil>" "- \<lceil>2 * sigma\<rceil> \<le> i" "i \<le> \<lceil>2 * sigma\<rceil>"
  shows "\<exists>k. vec_at (BlurField_kernel sigma) (kernel_index \<lceil>2 * sigma\<rceil> j i) = Inr k \<and> 0 \<le> k \<and>
              (j = 0 \<and> i = 0 \<longrightarrow> k = 1)"
proof -
  from assms(1) have hs: "0 \<le> \<lceil>2 * sigma\<rceil>" by (simp add: le_ceiling_iff)
  from BlurField_kernel_props(2) [OF hs assms(2-5)] show ?thesis by auto
qed

lemma BlurField_cell_denominator:
  assumes s: "0 < sigma" and lm: "length msk = nat (w * h)" and lf: "length old_field = nat (w * h)"
    and c: "0 \<le> x" "x < w" "0 \<le> y" "y < h" "msk ! nat (y * w + x)"
  shows "\<exists>numer denom.
           BlurField_cell w h msk (BlurField_kernel sigma) old_field \<lceil>2 * sigma\<rceil> x y = Inr (numer, denom) \<and>
           1 \<le> denom"
proof -
  let ?hs = "\<lceil>2 * sigma\<rceil>"
  from s have hs: "0 \<le> ?hs" by (simp add: le_ceiling_iff)
  have all: "\<forall>j \<in> set [- ?hs..?hs]. - ?hs \<le> j \<and> j \<le> ?hs" by simp
  from BlurField_row_fold [of ?hs "BlurField_kernel sigma" msk w h old_field "[- ?hs..?hs]" x y 0 0,
      OF BlurField_kernel_taps [OF s] lm lf hs all]
  obtain n' d' where
    "fold (BlurField_row w h msk (BlurField_kernel sigma) old_field ?hs x y) [- ?hs..?hs] (Inr (0, 0)) = Inr (n', d')"
    and "0 \<in> set [- ?hs..?hs] \<and> 0 \<le> x \<and> x < w \<and> 0 \<le> y \<and> y < h \<and> msk ! nat (y * w + x) \<longrightarrow> 0 + 1 \<le> d'"
    by blast
  with c hs show ?thesis by (auto simp: BlurField_cell_def)
qed

lemma BlurField_step_ok:
  assumes s: "0 < sigma" and lm: "length msk = nat (w * h)" and lo: "length old_field = nat (w * h)"
    and lf: "length f = nat (w * h)" and c: "0 \<le> x" "x < w" "0 \<le> y" "y < h"
  shows "\<exists>f'. BlurField_step w h msk (BlurField_kernel sigma) old_field \<lceil>2 * sigma\<rceil> y x (Inr f) = Inr f' \<and>
              length f' = nat (w * h)"
proof -
  from index_in_range [OF c] have ir: "0 \<le> y * w + x" "y * w + x < w * h" by simp_all
  then have m: "vec_at msk (y * w + x) = Inr (msk ! nat (y * w + x))"
    using lm by (simp add: vec_at_def)
  show ?thesis
  proof (cases "msk ! nat (y * w + x)")
    case False
    then show ?thesis using m lf by (simp add: BlurField_step_def)
  next
    case True
    from BlurField_cell_denominator [OF s lm lo c True] obtain numer denom where
      "BlurField_cell w h msk (BlurField_kernel sigma) old_field \<lceil>2 * sigma\<rceil> x y = Inr (numer, denom)"
      "1 \<le> denom" by blast
    then show ?thesis using True m lf ir by (simp add: BlurField_step_def)
  qed
qed

lemma BlurField_columns_ok:
  assumes s: "0 < sigma" and lm: "length msk = nat (w * h)" and lo: "length old_field = nat (w * h)"
    and y: "0 \<le> y" "y < h"
  shows "\<forall>x \<in> set xs. 0 \<le> x \<and> x < w \<Longrightarrow> length f = nat (w * h) \<Longrightarrow>
         \<exists>f'. fold (BlurField_step w h msk (BlurField_kernel sigma) old_field \<lceil>2 * sigma\<rceil> y) xs (Inr f) = Inr f' \<and>
              length f' = nat (w * h)"
proof (induction xs arbitrary: f)
  case Nil
  then show ?case by simp
next
  case (Cons x xs)
  from Cons.prems have x: "0 \<le> x" "x < w" by simp_all
  from BlurField_step_ok [OF s lm lo Cons.prems(2) x y] obtain f1 where
    "BlurField_step w h msk (BlurField_kernel sigma) old_field \<lceil>2 * sigma\<rceil> y x (Inr f) = Inr f1"
    "length f1 = nat (w * h)" by blast
  with Cons.IH [of f1] Cons.prems(1) show ?case by simp
qed

lemma BlurField_rows_ok:
  assumes s: "0 < sigma" and lm: "length msk = nat (w * h)" and lo: "length old_field = nat (w * h)"
  shows "\<forall>y \<in> set ys. 0 \<le> y \<and> y < h \<Longrightarrow> length f = nat (w * h) \<Longrightarrow>
         \<exists>f'. fold (\<lambda>y. fold (BlurField_step w h msk (BlurField_kernel sigma) old_field \<lceil>2 * sigma\<rceil> y) [0..w - 1])
                 ys (Inr f) = Inr f' \<and>
              length f' = nat (w * h)"
proof (induction ys arbitrary: f)
  case Nil
  then show ?case by simp
next
  case (Cons y ys)
  from Cons.prems have y: "0 \<le> y" "y < h" by simp_all
  have xs: "\<forall>x \<in> set [0..w - 1]. 0 \<le> x \<and> x < w" by simp
  from BlurField_columns_ok [OF s lm lo y xs Cons.prems(2)] obtain f1 where
    "fold (BlurField_step w h msk (BlurField_kernel sigma) old_field \<lceil>2 * sigma\<rceil> y) [0..w - 1] (Inr f) = Inr f1"
    "length f1 = nat (w * h)" by blast
  with Cons.IH [of f1] Cons.prems(1) show ?case by simp
qed

text \<open>
  Claim C10. For a positive \<open>sigma\<close> and a mask and a field of \<open>w * h\<close> entries, every
  cell inside the mask accumulates its own tap of weight \<open>exp 0 = 1\<close>, so its
  denominator is at least 1; \<^verbatim>\<open>BlurField\<close> never reaches the abort \<^verbatim>\<open>Impossible\<close>, reads
  and writes only inside its vectors, and returns a field of the same size.
\<close>

theorem BlurField_denominator_positive:
  assumes "0 < sigma" and "length msk = nat (w * h)" and "length field = nat (w * h)"
  shows "(\<forall>x y. 0 \<le> x \<and> x < w \<and> 0 \<le> y \<and> y < h \<and> msk ! nat (y * w + x) \<longrightarrow>
            (\<exists>numer denom.
               BlurField_cell w h msk (BlurField_kernel sigma) field \<lceil>2 * sigma\<rceil> x y =
                 Inr (numer, denom) \<and> 1 \<le> denom)) \<and>
         (\<exists>field'. BlurField w h msk sigma field = Inr field' \<and> length field' = length field)"
proof -
  have ys: "\<forall>y \<in> set [0..h - 1]. 0 \<le> y \<and> y < h" by simp
  from BlurField_rows_ok [OF assms(1,2,3) ys assms(3)]
  have "\<exists>field'. BlurField w h msk sigma field = Inr field' \<and> length field' = length field"
    using assms(3) by (simp add: BlurField_def Let_def)
  moreover have "\<exists>numer denom.
      BlurField_cell w h msk (BlurField_kernel sigma) field \<lceil>2 * sigma\<rceil> x y = Inr (numer, denom) \<and>
      1 \<le> denom"
    if "0 \<le> x \<and> x < w \<and> 0 \<le> y \<and> y < h \<and> msk ! nat (y * w + x)" for x y
    using BlurField_cell_denominator [OF assms, of x y] that by blast
  ultimately show ?thesis by blast
qed

theorem BlurField_denominator_positive_witness:
  "(0 :: real) < 1 / 2 \<and> length [False, True] = nat (2 * 1) \<and> length [5, 7 :: real] = nat (2 * 1) \<and>
   (\<exists>numer denom.
      BlurField_cell 2 1 [False, True] (BlurField_kernel (1 / 2)) [5, 7] \<lceil>2 * (1 / 2 :: real)\<rceil> 1 0 =
        Inr (numer, denom) \<and> 1 \<le> denom) \<and>
   (\<exists>field'. BlurField 2 1 [False, True] (1 / 2) [5, 7] = Inr field' \<and> length field' = 2)"
proof -
  have h: "(0 :: real) < 1 / 2" "length [False, True] = nat (2 * 1)"
    "length [5, 7 :: real] = nat (2 * 1)" by simp_all
  note t = BlurField_denominator_positive [OF h]
  have c: "\<exists>numer denom.
      BlurField_cell 2 1 [False, True] (BlurField_kernel (1 / 2)) [5, 7] \<lceil>2 * (1 / 2 :: real)\<rceil> 1 0 =
        Inr (numer, denom) \<and> 1 \<le> denom"
    by (rule t [THEN conjunct1, rule_format, of 1 0]) simp
  have f: "\<exists>field'. BlurField 2 1 [False, True] (1 / 2) [5, 7] = Inr field' \<and> length field' = 2"
    using t [THEN conjunct2] by (simp add: numeral_2_eq_2)
  show ?thesis using h c f by blast
qed

text \<open>
  The hypothesis on \<open>sigma\<close> is needed: for \<open>sigma = -1/2\<close> the half size is \<open>-1\<close>, no
  tap is visited, and a cell inside the mask reaches the abort.
\<close>

lemma BlurField_negative_sigma: "BlurField 1 1 [True] (- (1 / 2)) [3] = Inl Impossible"
  by (simp add: BlurField_def BlurField_kernel_def BlurField_step_def BlurField_cell_def vec_at_def)

subsection \<open>Merging clusters\<close>

lemma fold_nested_pairs:
  "fold (\<lambda>i. fold (f i) (g i)) xs = fold (\<lambda>(i, j). f i j) (concat (map (\<lambda>i. map (Pair i) (g i)) xs))"
proof (induction xs)
  case Nil
  then show ?case by simp
next
  case (Cons x xs)
  have "fold (\<lambda>(i, j). f i j) (map (Pair x) (g x)) = fold (f x) (g x)"
    by (simp add: fold_map comp_def)
  with Cons show ?case by (simp add: comp_def)
qed

lemma set_upper_pairs: "set (upper_pairs n) = {(i, j). i < j \<and> j < n}"
proof -
  have u: "set (upper_pairs n) = (\<Union>i \<in> {0..<n}. Pair i ` {Suc i..<n})"
    by (simp add: upper_pairs_def)
  have "(a, b) \<in> (\<Union>i \<in> {0..<n}. Pair i ` {Suc i..<n}) \<longleftrightarrow> a < b \<and> b < n" for a b
  proof
    assume "(a, b) \<in> (\<Union>i \<in> {0..<n}. Pair i ` {Suc i..<n})"
    then obtain i where "i \<in> {0..<n}" "(a, b) \<in> Pair i ` {Suc i..<n}" by blast
    then show "a < b \<and> b < n" by (simp add: image_iff)
  next
    assume ab: "a < b \<and> b < n"
    then have "a \<in> {0..<n}" by simp
    moreover from ab have "(a, b) \<in> Pair a ` {Suc a..<n}" by (simp add: image_iff)
    ultimately show "(a, b) \<in> (\<Union>i \<in> {0..<n}. Pair i ` {Suc i..<n})" by blast
  qed
  with u show ?thesis by (simp add: set_eq_iff split_paired_all)
qed

lemma matrix_set_beyond: "length d \<le> i \<Longrightarrow> matrix_set d i j v = d"
  by (simp add: matrix_set_def list_update_beyond)

lemma square_matrix_set: "square n d \<Longrightarrow> square n (matrix_set d i j v)"
proof (cases "i < length d")
  case True
  assume "square n d"
  with True show ?thesis by (simp add: square_def matrix_set_def nth_list_update)
next
  case False
  assume "square n d"
  with False show ?thesis by (simp add: matrix_set_beyond)
qed

lemma nth_matrix_set:
  assumes "square n d" "r < n" "c < n"
  shows "matrix_set d i j v ! r ! c = (if r = i \<and> c = j then v else d ! r ! c)"
proof (cases "i < length d")
  case True
  with assms show ?thesis by (simp add: square_def matrix_set_def nth_list_update)
next
  case False
  with assms have "r \<noteq> i" by (simp add: square_def)
  with False show ?thesis by (simp add: matrix_set_beyond)
qed

lemma square_replicate: "square n (replicate n (replicate n v))"
  by (simp add: square_def)

lemma fold_matrix_set:
  "square n d \<Longrightarrow>
   square n (fold (\<lambda>(i, j) d. matrix_set d i j (V i j)) ps d) \<and>
   (\<forall>r < n. \<forall>c < n. fold (\<lambda>(i, j) d. matrix_set d i j (V i j)) ps d ! r ! c =
      (if (r, c) \<in> set ps then V r c else d ! r ! c))"
proof (induction ps arbitrary: d)
  case Nil
  then show ?case by simp
next
  case (Cons p ps)
  obtain i j where p: "p = (i, j)" by (cases p)
  let ?d1 = "matrix_set d i j (V i j)"
  let ?F = "fold (\<lambda>(i, j) d. matrix_set d i j (V i j))"
  from Cons.prems have sq: "square n ?d1"
    by (rule square_matrix_set)
  have unfold: "?F (p # ps) d = ?F ps ?d1" by (simp add: p)
  from Cons.IH [OF sq] have s: "square n (?F ps ?d1)"
    and e: "\<And>r c. r < n \<Longrightarrow> c < n \<Longrightarrow>
              ?F ps ?d1 ! r ! c = (if (r, c) \<in> set ps then V r c else ?d1 ! r ! c)"
    by blast+
  have "?F ps ?d1 ! r ! c = (if (r, c) \<in> set (p # ps) then V r c else d ! r ! c)"
    if "r < n" "c < n" for r c
  proof -
    have a: "?F ps ?d1 ! r ! c = (if (r, c) \<in> set ps then V r c else ?d1 ! r ! c)"
      by (rule e [OF that])
    have b: "?d1 ! r ! c = (if r = i \<and> c = j then V i j else d ! r ! c)"
      by (rule nth_matrix_set [OF Cons.prems that])
    show ?thesis unfolding a b by (auto simp: p)
  qed
  with s show ?case unfolding unfold by blast
qed

lemma center_distances_fold:
  assumes "\<forall>(i, j) \<in> set ps. valid_index wv (centers ! i) \<and> valid_index wv (centers ! j)"
  shows "fold (\<lambda>(i, j) acc. case acc of Inl e \<Rightarrow> Inl e | Inr distances \<Rightarrow>
                    (case vec_at wv (centers ! i) of Inl e \<Rightarrow> Inl e | Inr si \<Rightarrow>
                    (case vec_at wv (centers ! j) of Inl e \<Rightarrow> Inl e | Inr sj \<Rightarrow>
                       Inr (matrix_set distances i j (VisibilityDistance si sj)))))
           ps (Inr d) =
         Inr (fold (\<lambda>(i, j) d. matrix_set d i j (center_distance wv centers i j)) ps d)"
  using assms
proof (induction ps arbitrary: d)
  case Nil
  then show ?case by simp
next
  case (Cons p ps)
  obtain i j where p: "p = (i, j)" by (cases p)
  from Cons.prems have v: "valid_index wv (centers ! i)" "valid_index wv (centers ! j)"
    and rest: "\<forall>(i, j) \<in> set ps. valid_index wv (centers ! i) \<and> valid_index wv (centers ! j)"
    by (simp_all add: p)
  from v have r: "vec_at wv (centers ! i) = Inr (wv ! nat (centers ! i))"
    "vec_at wv (centers ! j) = Inr (wv ! nat (centers ! j))"
    by (simp_all add: vec_at_def valid_index_def)
  show ?case
    using Cons.IH [OF rest] by (simp add: p r center_distance_def)
qed

lemma center_distances_ok:
  assumes v: "\<forall>i < length centers. valid_index wv (centers ! i)"
  shows "\<exists>d. center_distances wv centers = Inr d \<and> square (length centers) d \<and>
           (\<forall>r < length centers. \<forall>c < length centers.
              d ! r ! c = (if r < c then center_distance wv centers r c else float_max))"
proof -
  let ?n = "length centers"
  let ?d0 = "replicate ?n (replicate ?n float_max)"
  let ?D = "fold (\<lambda>(i, j) d. matrix_set d i j (center_distance wv centers i j)) (upper_pairs ?n) ?d0"
  have ps: "\<forall>(i, j) \<in> set (upper_pairs ?n). valid_index wv (centers ! i) \<and> valid_index wv (centers ! j)"
    using v by (auto simp: set_upper_pairs)
  have "center_distances wv centers = Inr ?D"
    unfolding center_distances_def Let_def fold_nested_pairs upper_pairs_def [symmetric]
    by (rule center_distances_fold [OF ps])
  moreover note f = fold_matrix_set [OF square_replicate, of ?n "center_distance wv centers" "upper_pairs ?n" float_max]
  from f have "square ?n ?D" by blast
  moreover have "?D ! r ! c = (if r < c then center_distance wv centers r c else float_max)"
    if "r < ?n" "c < ?n" for r c
  proof -
    from f that have "?D ! r ! c =
        (if (r, c) \<in> set (upper_pairs ?n) then center_distance wv centers r c else ?d0 ! r ! c)"
      by blast
    with that show ?thesis by (simp add: set_upper_pairs)
  qed
  ultimately show ?thesis by blast
qed

lemma closest_fold:
  fixes d :: "real list list"
  assumes "fold (\<lambda>(i, j) (closest_distance, closest_pair).
                   if d ! i ! j < closest_distance then (d ! i ! j, (i, j))
                   else (closest_distance, closest_pair))
             ps (cd, cp) = (cd', cp')"
  shows "cd' \<le> cd \<and> (\<forall>(i, j) \<in> set ps. cd' \<le> d ! i ! j) \<and>
         ((cd', cp') = (cd, cp) \<or> (cp' \<in> set ps \<and> cd' = d ! fst cp' ! snd cp' \<and> cd' < cd))"
  using assms
proof (induction ps arbitrary: cd cp)
  case Nil
  then show ?case by simp
next
  case (Cons p ps)
  obtain i j where p: "p = (i, j)" by (cases p)
  show ?case
  proof (cases "d ! i ! j < cd")
    case True
    with Cons.prems have "fold (\<lambda>(i, j) (closest_distance, closest_pair).
                   if d ! i ! j < closest_distance then (d ! i ! j, (i, j))
                   else (closest_distance, closest_pair))
             ps (d ! i ! j, (i, j)) = (cd', cp')"
      by (simp add: p)
    from Cons.IH [OF this] True show ?thesis
      by (auto simp: p)
  next
    case False
    with Cons.prems have "fold (\<lambda>(i, j) (closest_distance, closest_pair).
                   if d ! i ! j < closest_distance then (d ! i ! j, (i, j))
                   else (closest_distance, closest_pair))
             ps (cd, cp) = (cd', cp')"
      by (simp add: p)
    from Cons.IH [OF this] False show ?thesis
      by (auto simp: p)
  qed
qed

lemma closest_pair_of_props:
  fixes d :: "real list list"
  assumes "closest_pair_of n d = (cd, cp)"
  shows "cd \<le> float_max"
    and "\<And>i j. i < j \<Longrightarrow> j < n \<Longrightarrow> cd \<le> d ! i ! j"
    and "cd < float_max \<Longrightarrow> fst cp < snd cp \<and> snd cp < n \<and> d ! fst cp ! snd cp = cd"
proof -
  have "fold (\<lambda>(i, j) (closest_distance, closest_pair).
                   if d ! i ! j < closest_distance then (d ! i ! j, (i, j))
                   else (closest_distance, closest_pair))
             (upper_pairs n) (float_max, (0, 0)) = (cd, cp)"
    using assms unfolding closest_pair_of_def fold_nested_pairs upper_pairs_def .
  from closest_fold [OF this]
  have a: "cd \<le> float_max" and b: "\<forall>(i, j) \<in> set (upper_pairs n). cd \<le> d ! i ! j"
    and c: "(cd, cp) = (float_max, (0, 0)) \<or>
            (cp \<in> set (upper_pairs n) \<and> cd = d ! fst cp ! snd cp \<and> cd < float_max)"
    by blast+
  show "cd \<le> float_max" by (rule a)
  show "cd \<le> d ! i ! j" if "i < j" "j < n" for i j
    using b that by (auto simp: set_upper_pairs)
  show "fst cp < snd cp \<and> snd cp < n \<and> d ! fst cp ! snd cp = cd" if "cd < float_max"
    using c that by (cases cp) (auto simp: set_upper_pairs)
qed

lemma invalidate_step_nth:
  assumes sq: "square n d" and rc: "r < n" "c < n"
  shows "matrix_set (matrix_set (matrix_set (matrix_set d a k M) b k M) k a M) k b M ! r ! c =
      (if (r = a \<and> c = k) \<or> (r = b \<and> c = k) \<or> (r = k \<and> c = a) \<or> (r = k \<and> c = b)
       then M else d ! r ! c)"
proof -
  let ?da = "matrix_set d a k M"
  let ?db = "matrix_set ?da b k M"
  let ?dc = "matrix_set ?db k a M"
  from sq have sqa: "square n ?da" by (rule square_matrix_set)
  then have sqb: "square n ?db" by (rule square_matrix_set)
  then have sqc: "square n ?dc" by (rule square_matrix_set)
  have 1: "matrix_set ?dc k b M ! r ! c = (if r = k \<and> c = b then M else ?dc ! r ! c)"
    by (rule nth_matrix_set [OF sqc rc])
  have 2: "?dc ! r ! c = (if r = k \<and> c = a then M else ?db ! r ! c)"
    by (rule nth_matrix_set [OF sqb rc])
  have 3: "?db ! r ! c = (if r = b \<and> c = k then M else ?da ! r ! c)"
    by (rule nth_matrix_set [OF sqa rc])
  have 4: "?da ! r ! c = (if r = a \<and> c = k then M else d ! r ! c)"
    by (rule nth_matrix_set [OF sq rc])
  have ifs: "(if P1 then M else if P2 then M else if P3 then M else if P4 then M else x) =
             (if P4 \<or> P3 \<or> P2 \<or> P1 then M else x)" for P1 P2 P3 P4 and x :: real
    by simp
  show ?thesis unfolding 1 2 3 4 by (rule ifs)
qed

lemma invalidate_fold:
  assumes sq: "square n d" and ab: "a < n" "b < n"
  shows "\<forall>k \<in> set ks. k < n \<Longrightarrow>
         square n (fold (\<lambda>i d.
             (let d = matrix_set d (fst (a, b)) i float_max;
                  d = matrix_set d (snd (a, b)) i float_max;
                  d = matrix_set d i (fst (a, b)) float_max
              in matrix_set d i (snd (a, b)) float_max)) ks d) \<and>
         (\<forall>r < n. \<forall>c < n.
            fold (\<lambda>i d.
             (let d = matrix_set d (fst (a, b)) i float_max;
                  d = matrix_set d (snd (a, b)) i float_max;
                  d = matrix_set d i (fst (a, b)) float_max
              in matrix_set d i (snd (a, b)) float_max)) ks d ! r ! c =
            (if (r \<in> {a, b} \<and> c \<in> set ks) \<or> (c \<in> {a, b} \<and> r \<in> set ks)
             then float_max else d ! r ! c))"
  using sq
proof (induction ks arbitrary: d)
  case Nil
  then show ?case by simp
next
  case (Cons k ks)
  let ?d1 = "matrix_set (matrix_set (matrix_set (matrix_set d a k float_max) b k float_max)
               k a float_max) k b float_max"
  let ?F = "fold (\<lambda>i d.
             (let d = matrix_set d (fst (a, b)) i float_max;
                  d = matrix_set d (snd (a, b)) i float_max;
                  d = matrix_set d i (fst (a, b)) float_max
              in matrix_set d i (snd (a, b)) float_max))"
  have unfold: "?F (k # ks) d = ?F ks ?d1" by (simp add: Let_def)
  from Cons.prems(2) have sq1: "square n ?d1"
    by (intro square_matrix_set)
  have e1: "?d1 ! r ! c =
      (if (r = a \<and> c = k) \<or> (r = b \<and> c = k) \<or> (r = k \<and> c = a) \<or> (r = k \<and> c = b)
       then float_max else d ! r ! c)" if "r < n" "c < n" for r c
    by (rule invalidate_step_nth [OF Cons.prems(2) that])
  from Cons.prems(1) have ks: "\<forall>k \<in> set ks. k < n" by simp
  from Cons.IH [OF ks sq1] have s: "square n (?F ks ?d1)"
    and e: "\<And>r c. r < n \<Longrightarrow> c < n \<Longrightarrow> ?F ks ?d1 ! r ! c =
            (if (r \<in> {a, b} \<and> c \<in> set ks) \<or> (c \<in> {a, b} \<and> r \<in> set ks)
             then float_max else ?d1 ! r ! c)"
    by blast+
  have "?F ks ?d1 ! r ! c =
            (if (r \<in> {a, b} \<and> c \<in> set (k # ks)) \<or> (c \<in> {a, b} \<and> r \<in> set (k # ks))
             then float_max else d ! r ! c)" if "r < n" "c < n" for r c
  proof -
    have ifs: "(if P then M else if Q then M else x) = (if R then M else x)"
      if "R \<longleftrightarrow> P \<or> Q" for P Q R and M x :: real
      using that by simp
    show ?thesis unfolding e [OF that] e1 [OF that]
      by (rule ifs) auto
  qed
  with s show ?case unfolding unfold by blast
qed

lemma invalidate_props:
  assumes sq: "square n d" and ab: "a < n" "b < n"
  shows "square n (invalidate n (a, b) d)"
    and "\<And>r c. r < n \<Longrightarrow> c < n \<Longrightarrow>
           invalidate n (a, b) d ! r ! c =
             (if r \<in> {a, b} \<or> c \<in> {a, b} then float_max else d ! r ! c)"
proof -
  have ks: "\<forall>k \<in> set [0..<n]. k < n" by simp
  note f = invalidate_fold [OF sq ab ks, folded invalidate_def]
  from f show "square n (invalidate n (a, b) d)" by blast
  show "invalidate n (a, b) d ! r ! c =
             (if r \<in> {a, b} \<or> c \<in> {a, b} then float_max else d ! r ! c)"
    if "r < n" "c < n" for r c
  proof -
    from f that have "invalidate n (a, b) d ! r ! c =
        (if (r \<in> {a, b} \<and> c \<in> set [0..<n]) \<or> (c \<in> {a, b} \<and> r \<in> set [0..<n])
         then float_max else d ! r ! c)" by blast
    with that show ?thesis by simp
  qed
qed

lemma disjoint_pairs_length:
  assumes "disjoint_pairs n ps"
  shows "2 * length ps \<le> n"
proof -
  let ?xs = "map fst ps @ map snd ps"
  from assms have d: "distinct ?xs" and s: "set ?xs \<subseteq> {..<n}"
    by (auto simp: disjoint_pairs_def)
  from d have "card (set ?xs) = length ?xs" by (rule distinct_card)
  moreover from s have "card (set ?xs) \<le> card {..<n}" by (intro card_mono) simp_all
  ultimately show ?thesis by simp
qed

lemma find_pairs_to_merge_total:
  assumes thr: "thr \<le> float_max"
  shows "square n d \<Longrightarrow> disjoint_pairs n ps \<Longrightarrow> invalidated n d ps \<Longrightarrow>
         \<exists>ps'. find_pairs_to_merge n thr d ps = Some ps' \<and> disjoint_pairs n ps' \<and>
               (ps' = [] \<longleftrightarrow> ps = [] \<and> \<not> fst (closest_pair_of n d) < thr)"
proof (induction "n - 2 * length ps" arbitrary: d ps rule: less_induct)
  case less
  obtain cd cp where c: "closest_pair_of n d = (cd, cp)"
    by (cases "closest_pair_of n d") auto
  show ?case
  proof (cases "cd < thr")
    case False
    then have "find_pairs_to_merge n thr d ps = Some ps"
      by (subst find_pairs_to_merge.simps) (simp add: c)
    with False less.prems(2) show ?thesis by (simp add: c)
  next
    case True
    with thr have lt: "cd < float_max" by simp
    obtain a b where cp: "cp = (a, b)" by (cases cp)
    from closest_pair_of_props(3) [OF c lt] have ab: "a < b" "b < n" and dab: "d ! a ! b = cd"
      by (simp_all add: cp)
    from ab have an: "a < n" by simp
    have fresh: "x \<notin> set (map fst ps) \<union> set (map snd ps)" if "x = a \<or> x = b" for x
    proof
      assume "x \<in> set (map fst ps) \<union> set (map snd ps)"
      with less.prems(3) have "\<forall>k < n. d ! x ! k = float_max \<and> d ! k ! x = float_max"
        unfolding invalidated_def by blast
      with that ab an have "d ! a ! b = float_max" by auto
      with dab lt show False by simp
    qed
    have dp: "disjoint_pairs n (ps @ [(a, b)])"
      using less.prems(2) ab fresh [of a] fresh [of b]
      by (auto simp: disjoint_pairs_def)
    have sq: "square n (invalidate n (a, b) d)"
      by (rule invalidate_props(1) [OF less.prems(1) an ab(2)])
    have inv: "invalidated n (invalidate n (a, b) d) (ps @ [(a, b)])"
      unfolding invalidated_def
    proof (intro ballI allI impI)
      fix x k assume x: "x \<in> set (map fst (ps @ [(a, b)])) \<union> set (map snd (ps @ [(a, b)]))"
        and k: "k < n"
      show "invalidate n (a, b) d ! x ! k = float_max \<and> invalidate n (a, b) d ! k ! x = float_max"
      proof (cases "x = a \<or> x = b")
        case True
        with an ab have xn: "x < n" by auto
        from True show ?thesis
          by (auto simp: invalidate_props(2) [OF less.prems(1) an ab(2) xn k]
              invalidate_props(2) [OF less.prems(1) an ab(2) k xn])
      next
        case False
        with x have xo: "x \<in> set (map fst ps) \<union> set (map snd ps)" by auto
        with less.prems(2) have xn: "x < n" by (auto simp: disjoint_pairs_def)
        from xo less.prems(3) k have "d ! x ! k = float_max" "d ! k ! x = float_max"
          unfolding invalidated_def by blast+
        then show ?thesis
          by (simp add: invalidate_props(2) [OF less.prems(1) an ab(2) xn k]
              invalidate_props(2) [OF less.prems(1) an ab(2) k xn])
      qed
    qed
    from disjoint_pairs_length [OF dp] have m: "n - 2 * length (ps @ [(a, b)]) < n - 2 * length ps"
      by simp
    from less.hyps [OF m sq dp inv] obtain ps' where
      r: "find_pairs_to_merge n thr (invalidate n (a, b) d) (ps @ [(a, b)]) = Some ps'"
      and dp': "disjoint_pairs n ps'" and ne: "ps' \<noteq> []"
      by auto
    have "find_pairs_to_merge n thr d ps = Some ps'"
      by (subst find_pairs_to_merge.simps) (simp add: c True cp r)
    with dp' ne True show ?thesis by (simp add: c)
  qed
qed

lemma first_search_below:
  fixes d :: "real list list"
  assumes thr: "thr \<le> float_max"
  shows "fst (closest_pair_of n d) < thr \<longleftrightarrow> (\<exists>i j. i < j \<and> j < n \<and> d ! i ! j < thr)"
proof -
  obtain cd cp where c: "closest_pair_of n d = (cd, cp)"
    by (cases "closest_pair_of n d") auto
  show ?thesis
  proof
    assume "fst (closest_pair_of n d) < thr"
    then have lt: "cd < thr" by (simp add: c)
    with thr have "cd < float_max" by simp
    from closest_pair_of_props(3) [OF c this] lt show "\<exists>i j. i < j \<and> j < n \<and> d ! i ! j < thr"
      by blast
  next
    assume "\<exists>i j. i < j \<and> j < n \<and> d ! i ! j < thr"
    then obtain i j where "i < j" "j < n" "d ! i ! j < thr" by blast
    with closest_pair_of_props(2) [OF c, of i j] show "fst (closest_pair_of n d) < thr"
      by (simp add: c)
  qed
qed

lemma merge_clusters_ok:
  "\<forall>p \<in> set ps. fst p < length cl \<and> snd p < length cl \<Longrightarrow> valid_clusters wv cl \<Longrightarrow>
   \<exists>cl'. merge_clusters ps cl = Inr cl' \<and> length cl' = length cl \<and> valid_clusters wv cl'"
proof (induction ps arbitrary: cl)
  case Nil
  then show ?case by (simp add: merge_clusters_def)
next
  case (Cons p ps)
  let ?cl1 = "cl[fst p := cl ! fst p @ cl ! snd p]"
  from Cons.prems(1) have p: "fst p < length cl" "snd p < length cl" by simp_all
  have step: "merge_clusters (p # ps) cl = merge_clusters ps ?cl1"
    using p by (simp add: merge_clusters_def)
  have v1: "valid_clusters wv ?cl1"
    unfolding valid_clusters_def
  proof (intro ballI)
    fix cluster m assume c: "cluster \<in> set ?cl1" and m: "m \<in> set cluster"
    from c have "cluster = cl ! fst p @ cl ! snd p \<or> cluster \<in> set cl"
      using set_update_subset_insert [of cl "fst p" "cl ! fst p @ cl ! snd p"] by auto
    moreover have "cl ! fst p \<in> set cl" "cl ! snd p \<in> set cl" using p by simp_all
    ultimately show "valid_index wv m"
      using m Cons.prems(2) unfolding valid_clusters_def by auto
  qed
  from Cons.prems(1) have rest: "\<forall>p \<in> set ps. fst p < length ?cl1 \<and> snd p < length ?cl1" by simp
  from Cons.IH [OF rest v1] show ?case unfolding step by simp
qed

lemma erase_clusters_ok:
  "sorted_wrt (>) ids \<Longrightarrow> \<forall>id \<in> set ids. id < length cl \<Longrightarrow> valid_clusters wv cl \<Longrightarrow>
   \<exists>cl'. erase_clusters ids cl = Inr cl' \<and> length cl' = length cl - length ids \<and>
         valid_clusters wv cl'"
proof (induction ids arbitrary: cl)
  case Nil
  then show ?case by (simp add: erase_clusters_def)
next
  case (Cons id ids)
  let ?cl1 = "take id cl @ drop (Suc id) cl"
  from Cons.prems(2) have id: "id < length cl" by simp
  have step: "erase_clusters (id # ids) cl = erase_clusters ids ?cl1"
    using id by (simp add: erase_clusters_def)
  from id have len: "length ?cl1 = length cl - 1" by simp
  have sub: "set ?cl1 \<subseteq> set cl"
    using set_take_subset [of id cl] set_drop_subset [of "Suc id" cl] by auto
  with Cons.prems(3) have v1: "valid_clusters wv ?cl1"
    unfolding valid_clusters_def by blast
  from Cons.prems(1) have s: "sorted_wrt (>) ids" and lt: "\<forall>x \<in> set ids. x < id" by auto
  from lt id have r: "\<forall>x \<in> set ids. x < length ?cl1" unfolding len by auto
  from Cons.IH [OF s r v1] len id show ?case unfolding step by auto
qed

lemma squared_distances_fold:
  "\<forall>(i, j) \<in> set ps. valid_index wv (cluster ! i) \<and> valid_index wv (cluster ! j) \<Longrightarrow>
   \<exists>ds'. fold (\<lambda>(i, j) acc. case acc of Inl e \<Rightarrow> Inl e | Inr distances \<Rightarrow>
                 (case vec_at wv (cluster ! i) of Inl e \<Rightarrow> Inl e | Inr si \<Rightarrow>
                 (case vec_at wv (cluster ! j) of Inl e \<Rightarrow> Inl e | Inr sj \<Rightarrow>
                    (let distance = VisibilityDistance si sj;
                         distances = distances[i := distances ! i + distance * distance]
                     in Inr (distances[j := distances ! j + distance * distance])))))
           ps (Inr ds) = Inr ds'"
proof (induction ps arbitrary: ds)
  case Nil
  then show ?case by simp
next
  case (Cons p ps)
  obtain i j where p: "p = (i, j)" by (cases p)
  from Cons.prems have v: "valid_index wv (cluster ! i)" "valid_index wv (cluster ! j)"
    and rest: "\<forall>(i, j) \<in> set ps. valid_index wv (cluster ! i) \<and> valid_index wv (cluster ! j)"
    by (simp_all add: p)
  from v have r: "vec_at wv (cluster ! i) = Inr (wv ! nat (cluster ! i))"
    "vec_at wv (cluster ! j) = Inr (wv ! nat (cluster ! j))"
    by (simp_all add: vec_at_def valid_index_def)
  show ?case
    using Cons.IH [OF rest] by (simp add: p r Let_def)
qed

lemma squared_distances_ok:
  assumes "\<forall>m \<in> set cluster. valid_index wv m"
  shows "\<exists>ds. squared_distances wv cluster = Inr ds"
proof -
  have "\<forall>(i, j) \<in> set (upper_pairs (length cluster)).
          valid_index wv (cluster ! i) \<and> valid_index wv (cluster ! j)"
    using assms by (auto simp: set_upper_pairs)
  from squared_distances_fold [OF this] show ?thesis
    unfolding squared_distances_def fold_nested_pairs upper_pairs_def [symmetric] .
qed

lemma UpdateCenters_fold:
  assumes v: "valid_clusters wv clusters"
  shows "\<forall>c \<in> set cs. c < length clusters \<Longrightarrow>
   \<exists>centers'. fold (\<lambda>c acc. case acc of Inl e \<Rightarrow> Inl e | Inr centers \<Rightarrow>
             (let cluster = clusters ! c
              in if cluster = [] then Inr centers
                 else
                   case squared_distances wv cluster of Inl e \<Rightarrow> Inl e
                   | Inr distances \<Rightarrow> Inr (centers[c := cluster ! min_element distances])))
       cs (Inr centers) = Inr centers' \<and> length centers' = length centers"
proof (induction cs arbitrary: centers)
  case Nil
  then show ?case by simp
next
  case (Cons c cs)
  from Cons.prems have c: "c < length clusters" and rest: "\<forall>c \<in> set cs. c < length clusters"
    by simp_all
  from c have "clusters ! c \<in> set clusters" by simp
  with v have "\<forall>m \<in> set (clusters ! c). valid_index wv m"
    unfolding valid_clusters_def by blast
  from squared_distances_ok [OF this] obtain ds where
    ds: "squared_distances wv (clusters ! c) = Inr ds" by blast
  show ?case
  proof (cases "clusters ! c = []")
    case True
    with Cons.IH [OF rest, of centers] show ?thesis by simp
  next
    case False
    with Cons.IH [OF rest, of "centers[c := clusters ! c ! min_element ds]"] ds
    show ?thesis by simp
  qed
qed

lemma UpdateCenters_ok:
  assumes "valid_clusters wv clusters"
  shows "\<exists>centers'. UpdateCenters wv clusters = Inr centers' \<and> length centers' = length clusters"
proof -
  have "\<forall>c \<in> set [0..<length clusters]. c < length clusters" by simp
  from UpdateCenters_fold [OF assms this, of "replicate (length clusters) 0"]
  show ?thesis unfolding UpdateCenters_def by simp
qed

lemma descending_erase_ids:
  assumes "distinct (xs :: nat list)"
  shows "sorted_wrt (>) (rev (sort xs))"
proof -
  from assms have "sorted_wrt (<) (sort xs)" by (simp add: strict_sorted_iff)
  then show ?thesis by (simp add: sorted_wrt_rev)
qed


text \<open>
  Claim C7. Let the threshold be at most \<open>float_max\<close> (as \<open>kMergeThreshold = 0.5\<close> is)
  and let every centre be an index into \<open>weighted_visibility\<close>. If no two centres at
  positions \<open>i < j\<close> have a visibility distance below the threshold, \<^verbatim>\<open>Merge\<close> returns
  false and leaves \<open>centers\<close> and \<open>clusters\<close> as they are. If moreover there is one
  cluster per centre and every member of a cluster is such an index, \<^verbatim>\<open>Merge\<close> ends
  without a failure, it returns true exactly when some pair of centres is below the
  threshold, and then at least one cluster has been merged away (the vector
  \<open>clusters\<close> is shorter, with one centre per remaining cluster); when it returns false
  nothing has changed.
\<close>

theorem Merge_quiescent:
  assumes thr: "threshold \<le> float_max"
    and vc: "\<forall>i < length centers. valid_index wv (centers ! i)"
  shows "(\<not> (\<exists>i j. i < j \<and> j < length centers \<and> center_distance wv centers i j < threshold) \<longrightarrow>
            Merge wv threshold centers clusters = Some (Inr (False, centers, clusters))) \<and>
         (length clusters = length centers \<and> valid_clusters wv clusters \<longrightarrow>
            (\<exists>merged centers' clusters'.
               Merge wv threshold centers clusters = Some (Inr (merged, centers', clusters')) \<and>
               (merged \<longleftrightarrow>
                  (\<exists>i j. i < j \<and> j < length centers \<and> center_distance wv centers i j < threshold)) \<and>
               (merged \<longrightarrow> length clusters' < length clusters \<and> length centers' = length clusters') \<and>
               (\<not> merged \<longrightarrow> centers' = centers \<and> clusters' = clusters)))"
proof -
  let ?n = "length centers"
  let ?below = "\<exists>i j. i < j \<and> j < ?n \<and> center_distance wv centers i j < threshold"
  from center_distances_ok [OF vc] obtain d where
    cd: "center_distances wv centers = Inr d" and sq: "square ?n d"
    and ent: "\<And>r c. r < ?n \<Longrightarrow> c < ?n \<Longrightarrow>
                d ! r ! c = (if r < c then center_distance wv centers r c else float_max)"
    by blast
  have "(\<exists>i j. i < j \<and> j < ?n \<and> d ! i ! j < threshold) \<longleftrightarrow> ?below"
  proof -
    have eq: "d ! i ! j = center_distance wv centers i j" if "i < j" "j < ?n" for i j
      using ent [of i j] that by simp
    show ?thesis
    proof
      assume "\<exists>i j. i < j \<and> j < ?n \<and> d ! i ! j < threshold"
      then obtain i j where ij: "i < j" "j < ?n" and lt: "d ! i ! j < threshold" by blast
      from lt have "center_distance wv centers i j < threshold" unfolding eq [OF ij] .
      with ij show ?below by blast
    next
      assume ?below
      then obtain i j where ij: "i < j" "j < ?n"
        and lt: "center_distance wv centers i j < threshold" by blast
      from lt have "d ! i ! j < threshold" unfolding eq [OF ij] .
      with ij show "\<exists>i j. i < j \<and> j < ?n \<and> d ! i ! j < threshold" by blast
    qed
  qed
  with first_search_below [OF thr, of ?n d]
  have below: "fst (closest_pair_of ?n d) < threshold \<longleftrightarrow> ?below" by simp
  have "disjoint_pairs ?n []" "invalidated ?n d []"
    by (simp_all add: disjoint_pairs_def invalidated_def)
  from find_pairs_to_merge_total [OF thr sq this] below obtain ps where
    fp: "find_pairs_to_merge ?n threshold d [] = Some ps" and dp: "disjoint_pairs ?n ps"
    and emp: "ps = [] \<longleftrightarrow> \<not> ?below"
    by auto
  have quiet: "Merge wv threshold centers clusters = Some (Inr (False, centers, clusters))"
    if "\<not> ?below"
    using that emp by (simp add: Merge_def cd fp)
  have full: "\<exists>merged centers' clusters'.
               Merge wv threshold centers clusters = Some (Inr (merged, centers', clusters')) \<and>
               (merged \<longleftrightarrow> ?below) \<and>
               (merged \<longrightarrow> length clusters' < length clusters \<and> length centers' = length clusters') \<and>
               (\<not> merged \<longrightarrow> centers' = centers \<and> clusters' = clusters)"
    if ready: "length clusters = ?n \<and> valid_clusters wv clusters"
  proof (cases ?below)
    case False
    with quiet show ?thesis by (intro exI [of _ False] exI [of _ centers] exI [of _ clusters]) simp
  next
    case True
    with emp have ne: "ps \<noteq> []" by simp
    from dp ready have inr: "\<forall>p \<in> set ps. fst p < length clusters \<and> snd p < length clusters"
      by (auto simp: disjoint_pairs_def)
    from merge_clusters_ok [OF inr] ready obtain cl1 where
      m: "merge_clusters ps clusters = Inr cl1" and l1: "length cl1 = length clusters"
      and v1: "valid_clusters wv cl1" by blast
    from dp have "distinct (map snd ps)" by (simp add: disjoint_pairs_def)
    then have desc: "sorted_wrt (>) (rev (sort (map snd ps)))" by (rule descending_erase_ids)
    from inr l1 have idr: "\<forall>id \<in> set (rev (sort (map snd ps))). id < length cl1" by auto
    from erase_clusters_ok [OF desc idr v1] obtain cl2 where
      e: "erase_clusters (rev (sort (map snd ps))) cl1 = Inr cl2"
      and l2: "length cl2 = length cl1 - length ps" and v2: "valid_clusters wv cl2"
      by auto
    from UpdateCenters_ok [OF v2] obtain cs where
      u: "UpdateCenters wv cl2 = Inr cs" and lc: "length cs = length cl2" by blast
    from disjoint_pairs_length [OF dp] ne ready have "0 < length clusters" by (cases ps) auto
    with l1 l2 ne have "length cl2 < length clusters" by (cases ps) auto
    moreover have "Merge wv threshold centers clusters = Some (Inr (True, cs, cl2))"
      using ne by (simp add: Merge_def cd fp m e u)
    ultimately show ?thesis using True lc by (intro exI [of _ True] exI [of _ cs] exI [of _ cl2]) simp
  qed
  from quiet full show ?thesis by blast
qed

theorem Merge_quiescent_witness:
  "kMergeThreshold \<le> float_max \<and>
   valid_index three_signatures 0 \<and> valid_index three_signatures 1 \<and>
   valid_index three_signatures 2 \<and>
   \<not> (\<exists>i j. i < j \<and> j < length [0, 2 :: int] \<and>
              center_distance three_signatures [0, 2] i j < kMergeThreshold) \<and>
   Merge three_signatures kMergeThreshold [0, 2] [[0, 1], [2]] =
     Some (Inr (False, [0, 2], [[0, 1], [2]])) \<and>
   length [[0], [1], [2 :: int]] = length [0, 1, 2 :: int] \<and>
   valid_clusters three_signatures [[0], [1], [2]] \<and>
   center_distance three_signatures [0, 1, 2] 0 1 < kMergeThreshold \<and>
   (\<exists>centers' clusters'.
      Merge three_signatures kMergeThreshold [0, 1, 2] [[0], [1], [2]] =
        Some (Inr (True, centers', clusters')) \<and>
      length clusters' < 3 \<and> length centers' = length clusters')"
proof -
  have t: "kMergeThreshold \<le> float_max"
    by (simp add: kMergeThreshold_def float_max_def)
  have v: "\<forall>i < length [0, 2 :: int]. valid_index three_signatures ([0, 2] ! i)"
    by (simp add: valid_index_def three_signatures_def less_Suc_eq)
  have q: "\<not> (\<exists>i j. i < j \<and> j < length [0, 2 :: int] \<and>
              center_distance three_signatures [0, 2] i j < kMergeThreshold)"
    by (auto simp: less_Suc_eq center_distance_def three_signatures_def VisibilityDistance_def
        kMergeThreshold_def)
  from Merge_quiescent [OF t v, of "[[0, 1], [2]]"] q
  have second: "Merge three_signatures kMergeThreshold [0, 2] [[0, 1], [2]] =
     Some (Inr (False, [0, 2], [[0, 1], [2]]))" by blast
  have v3: "\<forall>i < length [0, 1, 2 :: int]. valid_index three_signatures ([0, 1, 2] ! i)"
    by (simp add: valid_index_def three_signatures_def less_Suc_eq numeral_3_eq_3)
  have r: "length [[0], [1], [2 :: int]] = length [0, 1, 2 :: int]"
    "valid_clusters three_signatures [[0], [1], [2]]"
    by (simp_all add: valid_clusters_def valid_index_def three_signatures_def)
  have c: "center_distance three_signatures [0, 1, 2] 0 1 < kMergeThreshold"
    by (simp add: center_distance_def three_signatures_def VisibilityDistance_def
        kMergeThreshold_def)
  then have b: "\<exists>i j. i < j \<and> j < length [0, 1, 2 :: int] \<and>
                  center_distance three_signatures [0, 1, 2] i j < kMergeThreshold"
    by (intro exI [of _ 0] exI [of _ 1]) simp
  from Merge_quiescent [OF t v3, of "[[0], [1], [2]]"] r b
  have first: "\<exists>centers' clusters'.
      Merge three_signatures kMergeThreshold [0, 1, 2] [[0], [1], [2]] =
        Some (Inr (True, centers', clusters')) \<and>
      length clusters' < 3 \<and> length centers' = length clusters'"
    by auto
  have vi: "valid_index three_signatures 0" "valid_index three_signatures 1"
    "valid_index three_signatures 2"
    by (simp_all add: valid_index_def three_signatures_def)
  from t vi q second r c first show ?thesis by blast
qed

subsection \<open>The distance to the boundary: shortest paths\<close>

lemma cell_index_int:
  assumes "in_grid w h c"
  shows "int (cell_index w c) = snd c * w + fst c" and "cell_index w c < nat (w * h)"
proof -
  from assms index_in_range [of "fst c" w "snd c" h]
  have r: "0 \<le> snd c * w + fst c" "snd c * w + fst c < w * h"
    by (simp_all add: in_grid_def)
  then show "int (cell_index w c) = snd c * w + fst c" by (simp add: cell_index_def)
  from r show "cell_index w c < nat (w * h)" by (simp add: cell_index_def)
qed

lemma cell_index_inj:
  assumes a: "in_grid w h a" and b: "in_grid w h b" and eq: "cell_index w a = cell_index w b"
  shows "a = b"
proof -
  from a have w: "0 < w" by (auto simp: in_grid_def)
  from cell_index_int(1) [OF a] cell_index_int(1) [OF b] eq
  have e: "snd a * w + fst a = snd b * w + fst b" by simp
  have "(snd a * w + fst a) div w = snd a" using a w by (simp add: in_grid_def)
  moreover have "(snd b * w + fst b) div w = snd b" using b w by (simp add: in_grid_def)
  ultimately have "snd a = snd b" using e by simp
  with e have "fst a = fst b" by simp
  with \<open>snd a = snd b\<close> show ?thesis by (simp add: prod_eq_iff)
qed

lemma vec_at_cell:
  assumes "in_grid w h c" and "length v = nat (w * h)"
  shows "vec_at v (snd c * w + fst c) = Inr (v ! cell_index w c)"
proof -
  from assms(1) index_in_range [of "fst c" w "snd c" h]
  have r: "0 \<le> snd c * w + fst c" "snd c * w + fst c < w * h"
    by (simp_all add: in_grid_def)
  then have "snd c * w + fst c < int (length v)" unfolding assms(2) by linarith
  with r(1) show ?thesis by (simp add: vec_at_def cell_index_def)
qed

lemma free_cell_interior:
  assumes "border_clear w h msk" and "free_cell w h msk c"
  shows "1 \<le> fst c \<and> fst c \<le> w - 2 \<and> 1 \<le> snd c \<and> snd c \<le> h - 2"
proof -
  from assms(2) have g: "in_grid w h c" and m: "msk ! cell_index w c"
    by (simp_all add: free_cell_def)
  from assms(1) g m have "\<not> (fst c = 0 \<or> fst c = w - 1 \<or> snd c = 0 \<or> snd c = h - 1)"
    unfolding border_clear_def by blast
  with g show ?thesis by (auto simp: in_grid_def)
qed

lemma adjacent_in_grid:
  assumes "border_clear w h msk" and "free_cell w h msk c" and "adjacent c n"
  shows "in_grid w h n"
  using free_cell_interior [OF assms(1,2)] assms(3)
  by (auto simp: in_grid_def adjacent_def)

lemma is_source_free: "is_source w h msk c \<Longrightarrow> free_cell w h msk c"
  by (auto simp: is_source_def free_cell_def in_grid_def)

lemma step_cost_sym: "step_cost a b = step_cost b a"
  by (simp add: step_cost_def algebra_simps)

lemma step_cost_bounds:
  assumes "adjacent a b"
  shows "1 \<le> step_cost a b" and "step_cost a b \<le> sqrt 2"
proof -
  let ?dx = "fst b - fst a" and ?dy = "snd b - snd a"
  from assms have r: "\<bar>?dx\<bar> \<le> 1" "\<bar>?dy\<bar> \<le> 1" "?dx \<noteq> 0 \<or> ?dy \<noteq> 0"
    by (auto simp: adjacent_def prod_eq_iff)
  from r(1) have "?dx = - 1 \<or> ?dx = 0 \<or> ?dx = 1" by linarith
  then have sx: "?dx * ?dx \<in> {0, 1}" by auto
  from r(2) have "?dy = - 1 \<or> ?dy = 0 \<or> ?dy = 1" by linarith
  then have sy: "?dy * ?dy \<in> {0, 1}" by auto
  note sq = sx sy
  from r(3) have nz: "?dx * ?dx \<noteq> 0 \<or> ?dy * ?dy \<noteq> 0" by simp
  from sq nz have lo: "1 \<le> ?dx * ?dx + ?dy * ?dy" and hi: "?dx * ?dx + ?dy * ?dy \<le> 2" by auto
  from lo have "sqrt 1 \<le> sqrt (real_of_int (?dx * ?dx + ?dy * ?dy))"
    by (intro real_sqrt_le_mono) (simp add: of_int_1_le_iff del: of_int_add of_int_mult)
  then show "1 \<le> step_cost a b" by (simp add: step_cost_def)
  from hi have "sqrt (real_of_int (?dx * ?dx + ?dy * ?dy)) \<le> sqrt 2"
    by (intro real_sqrt_le_mono) (simp add: of_int_le_numeral_iff del: of_int_add of_int_mult)
  then show "step_cost a b \<le> sqrt 2" by (simp add: step_cost_def)
qed

lemma path_cost_nonneg: "free_path w h msk p \<Longrightarrow> 0 \<le> path_cost p"
proof (induction p rule: path_cost.induct)
  case (1 a b p)
  then have "adjacent a b" "free_path w h msk (b # p)" by simp_all
  with "1.IH" step_cost_bounds(1) [of a b] show ?case by simp
qed simp_all

lemma free_path_head_free: "free_path w h msk (c # p) \<Longrightarrow> free_cell w h msk c"
  by (cases p) (simp_all add: is_source_free)

lemma upto_m1_1: "[- 1..1] = [- 1, 0, 1 :: int]"
  by (simp add: upto.simps)

lemma relax_neighbours:
  "fold (\<lambda>j. fold (relax w msk s x y j) [- 1..1]) [- 1..1] st =
   fold (\<lambda>(j, i). relax w msk s x y j i)
     [(- 1, - 1), (- 1, 0), (- 1, 1), (0, - 1), (0, 1), (1, - 1), (1, 0), (1, 1)] st"
proof -
  have z: "relax w msk s x y 0 0 = (\<lambda>st. st)" by (rule ext) (simp add: relax_def)
  show ?thesis by (simp add: upto_m1_1 z)
qed

lemma relax_step:
  assumes bc: "border_clear w h msk" and fc: "free_cell w h msk (x, y)"
    and lm: "length msk = nat (w * h)" and ld: "length d = nat (w * h)"
    and o: "- 1 \<le> i" "i \<le> 1" "- 1 \<le> j" "j \<le> 1" "\<not> (i = 0 \<and> j = 0)"
  shows "relax w msk s x y j i (Inr (d, q)) =
         (if msk ! cell_index w (x + i, y + j) \<and>
             s + step_cost (x, y) (x + i, y + j) < d ! cell_index w (x + i, y + j)
          then Inr (d[cell_index w (x + i, y + j) := s + step_cost (x, y) (x + i, y + j)],
                    (- (s + step_cost (x, y) (x + i, y + j)), (x + i, y + j)) # q)
          else Inr (d, q))"
proof -
  let ?n = "(x + i, y + j)"
  have adj: "adjacent (x, y) ?n" using o by (auto simp: adjacent_def)
  from adjacent_in_grid [OF bc fc adj] have g: "in_grid w h ?n" .
  from vec_at_cell [OF g lm] have m: "vec_at msk ((y + j) * w + (x + i)) = Inr (msk ! cell_index w ?n)"
    by simp
  from vec_at_cell [OF g ld] have v: "vec_at d ((y + j) * w + (x + i)) = Inr (d ! cell_index w ?n)"
    by simp
  have n: "nat ((y + j) * w + (x + i)) = cell_index w ?n" by (simp add: cell_index_def)
  have c: "sqrt (real_of_int (i * i + j * j)) = step_cost (x, y) ?n"
    by (simp add: step_cost_def)
  from o(5) have nz: "(i = 0 \<and> j = 0) = False" by simp
  show ?thesis
    unfolding relax_def Let_def nz if_False c
    by (simp add: m v n)
qed

lemma relax_fold:
  assumes bc: "border_clear w h msk" and fc: "free_cell w h msk (x, y)"
    and lm: "length msk = nat (w * h)"
  shows "length d = nat (w * h) \<Longrightarrow> distinct os \<Longrightarrow>
    \<forall>(j, i) \<in> set os. - 1 \<le> i \<and> i \<le> 1 \<and> - 1 \<le> j \<and> j \<le> 1 \<and> \<not> (i = 0 \<and> j = 0) \<Longrightarrow>
    \<exists>d' q'. fold (\<lambda>(j, i). relax w msk s x y j i) os (Inr (d, q)) = Inr (d', q') \<and>
       length d' = nat (w * h) \<and>
       (\<forall>n. in_grid w h n \<longrightarrow>
          d' ! cell_index w n =
            (if n \<in> improved w msk s (x, y) os d then s + step_cost (x, y) n
             else d ! cell_index w n)) \<and>
       set q' = set q \<union> (\<lambda>n. (- (s + step_cost (x, y) n), n)) ` improved w msk s (x, y) os d \<and>
       (improved w msk s (x, y) os d = {} \<longrightarrow> d' = d \<and> q' = q)"
proof (induction os arbitrary: d q)
  case Nil
  then show ?case by (simp add: improved_def)
next
  case (Cons ofs os)
  obtain j i where o: "ofs = (j, i)" by (cases ofs)
  let ?c = "(x, y)"
  let ?n1 = "(x + i, y + j)"
  let ?f = "\<lambda>n. (- (s + step_cost ?c n), n)"
  let ?b = "msk ! cell_index w ?n1 \<and> s + step_cost ?c ?n1 < d ! cell_index w ?n1"
  let ?d1 = "if ?b then d[cell_index w ?n1 := s + step_cost ?c ?n1] else d"
  let ?q1 = "if ?b then ?f ?n1 # q else q"
  from Cons.prems(3) have r: "- 1 \<le> i" "i \<le> 1" "- 1 \<le> j" "j \<le> 1" "\<not> (i = 0 \<and> j = 0)"
    and rest: "\<forall>(j, i) \<in> set os. - 1 \<le> i \<and> i \<le> 1 \<and> - 1 \<le> j \<and> j \<le> 1 \<and> \<not> (i = 0 \<and> j = 0)"
    by (simp_all add: o)
  from Cons.prems(2) have dis: "distinct os" and notin: "(j, i) \<notin> set os" by (simp_all add: o)
  have adj1: "adjacent ?c ?n1" using r by (auto simp: adjacent_def)
  from adjacent_in_grid [OF bc fc adj1] have g1: "in_grid w h ?n1" .
  have step: "fold (\<lambda>(j, i). relax w msk s x y j i) (ofs # os) (Inr (d, q)) =
              fold (\<lambda>(j, i). relax w msk s x y j i) os (Inr (?d1, ?q1))"
    using relax_step [OF bc fc lm Cons.prems(1) r, of s q] by (simp add: o)
  have ld1: "length ?d1 = nat (w * h)" using Cons.prems(1) by simp
  have grid_of: "in_grid w h n \<and> n \<noteq> ?n1" if "\<exists>(j', i') \<in> set os. n = (x + i', y + j')" for n
  proof -
    from that obtain j' i' where m: "(j', i') \<in> set os" and n: "n = (x + i', y + j')" by auto
    from rest m have "- 1 \<le> i'" "i' \<le> 1" "- 1 \<le> j'" "j' \<le> 1" "\<not> (i' = 0 \<and> j' = 0)" by auto
    then have "adjacent ?c n" unfolding n by (auto simp: adjacent_def)
    from adjacent_in_grid [OF bc fc this] have "in_grid w h n" .
    moreover from m notin have "(j', i') \<noteq> (j, i)" by auto
    then have "n \<noteq> ?n1" unfolding n by auto
    ultimately show ?thesis by simp
  qed
  have d1_other: "?d1 ! cell_index w n = d ! cell_index w n" if "in_grid w h n" "n \<noteq> ?n1" for n
  proof -
    from cell_index_inj [OF that(1) g1] that(2) have "cell_index w n \<noteq> cell_index w ?n1" by blast
    then show ?thesis by simp
  qed
  have T1: "improved w msk s ?c os ?d1 = improved w msk s ?c os d"
  proof (rule set_eqI)
    fix n
    show "n \<in> improved w msk s ?c os ?d1 \<longleftrightarrow> n \<in> improved w msk s ?c os d"
    proof (cases "\<exists>(j', i') \<in> set os. n = (x + i', y + j')")
      case True
      from grid_of [OF True] have "in_grid w h n" "n \<noteq> ?n1" by simp_all
      from d1_other [OF this] have eq: "?d1 ! cell_index w n = d ! cell_index w n" .
      show ?thesis unfolding improved_def mem_Collect_eq eq ..
    next
      case False
      then show ?thesis unfolding improved_def mem_Collect_eq by simp
    qed
  qed
  have T: "improved w msk s ?c (ofs # os) d = (if ?b then {?n1} else {}) \<union> improved w msk s ?c os d"
    unfolding improved_def o by auto
  from Cons.IH [OF ld1 dis rest, of ?q1] obtain d' q' where
    f: "fold (\<lambda>(j, i). relax w msk s x y j i) os (Inr (?d1, ?q1)) = Inr (d', q')"
    and l': "length d' = nat (w * h)"
    and v': "\<And>n. in_grid w h n \<Longrightarrow> d' ! cell_index w n =
              (if n \<in> improved w msk s ?c os d then s + step_cost ?c n else ?d1 ! cell_index w n)"
    and s': "set q' = set ?q1 \<union> ?f ` improved w msk s ?c os d"
    and e': "improved w msk s ?c os d = {} \<longrightarrow> d' = ?d1 \<and> q' = ?q1"
    unfolding T1 by blast
  have v: "d' ! cell_index w n =
            (if n \<in> improved w msk s ?c (ofs # os) d then s + step_cost ?c n else d ! cell_index w n)"
    if g: "in_grid w h n" for n
  proof (cases "n = ?n1")
    case True
    have len: "cell_index w ?n1 < length d"
      using cell_index_int(2) [OF g1] Cons.prems(1) by simp
    show ?thesis unfolding v' [OF g] T using True len by auto
  next
    case False
    show ?thesis unfolding v' [OF g] T d1_other [OF g False] using False by auto
  qed
  have s: "set q' = set q \<union> ?f ` improved w msk s ?c (ofs # os) d"
    unfolding s' T by auto
  have e: "improved w msk s ?c (ofs # os) d = {} \<longrightarrow> d' = d \<and> q' = q"
    using e' unfolding T by (auto split: if_splits)
  from f l' v s e show ?case unfolding step by blast
qed

lemma adjacent_offsets:
  "(\<exists>(j, i) \<in> set neighbour_offsets. n = (x + i, y + j)) \<longleftrightarrow> adjacent (x, y) n"
proof
  assume "\<exists>(j, i) \<in> set neighbour_offsets. n = (x + i, y + j)"
  then show "adjacent (x, y) n"
    by (auto simp: neighbour_offsets_def adjacent_def)
next
  assume a: "adjacent (x, y) n"
  let ?i = "fst n - x" and ?j = "snd n - y"
  from a have "\<bar>?i\<bar> \<le> 1" "\<bar>?j\<bar> \<le> 1" "\<not> (?i = 0 \<and> ?j = 0)"
    by (auto simp: adjacent_def prod_eq_iff)
  then have "(?i = - 1 \<or> ?i = 0 \<or> ?i = 1) \<and> (?j = - 1 \<or> ?j = 0 \<or> ?j = 1) \<and> \<not> (?i = 0 \<and> ?j = 0)"
    by linarith
  then have "(?j, ?i) \<in> set neighbour_offsets"
    unfolding neighbour_offsets_def by auto
  moreover have "n = (x + ?i, y + ?j)" by simp
  ultimately show "\<exists>(j, i) \<in> set neighbour_offsets. n = (x + i, y + j)" by blast
qed

lemma improved_all: "improved w msk s (x, y) neighbour_offsets d = improvable w msk s (x, y) d"
  unfolding improved_def improvable_def using adjacent_offsets [of _ x y] by simp

lemma relax_all:
  assumes bc: "border_clear w h msk" and fc: "free_cell w h msk (x, y)"
    and lm: "length msk = nat (w * h)" and ld: "length d = nat (w * h)"
  shows "\<exists>d' q'. fold (\<lambda>j. fold (relax w msk s x y j) [- 1..1]) [- 1..1] (Inr (d, q)) = Inr (d', q') \<and>
       length d' = nat (w * h) \<and>
       (\<forall>n. in_grid w h n \<longrightarrow>
          d' ! cell_index w n =
            (if n \<in> improvable w msk s (x, y) d then s + step_cost (x, y) n
             else d ! cell_index w n)) \<and>
       set q' = set q \<union> (\<lambda>n. (- (s + step_cost (x, y) n), n)) ` improvable w msk s (x, y) d \<and>
       (improvable w msk s (x, y) d = {} \<longrightarrow> d' = d \<and> q' = q)"
proof -
  have dis: "distinct neighbour_offsets" by (simp add: neighbour_offsets_def)
  have rng: "\<forall>(j, i) \<in> set neighbour_offsets.
      - 1 \<le> i \<and> i \<le> 1 \<and> - 1 \<le> j \<and> j \<le> 1 \<and> \<not> (i = 0 \<and> j = 0)"
    by (simp add: neighbour_offsets_def)
  from relax_fold [OF bc fc lm ld dis rng, of s q] show ?thesis
    unfolding relax_neighbours neighbour_offsets_def [symmetric] improved_all .
qed

lemma queue_top_max:
  assumes "q \<noteq> []"
  shows "queue_top q \<in> set q" and "\<And>e. e \<in> set q \<Longrightarrow> e \<le> queue_top q"
proof -
  from assms obtain a r where q: "q = a # r" by (cases q) auto
  have t: "queue_top q = Max (set q)"
    unfolding q queue_top_def list.sel by (rule Max.set_eq_fold [symmetric])
  show "queue_top q \<in> set q" unfolding t using assms by (intro Max_in) simp_all
  show "e \<le> queue_top q" if "e \<in> set q" for e
    unfolding t using that by (intro Max_ge) simp_all
qed

lemma queue_pop_props:
  assumes "q \<noteq> []"
  shows "set (queue_pop q) \<subseteq> set q"
    and "set q - {queue_top q} \<subseteq> set (queue_pop q)"
    and "length (queue_pop q) < length q"
proof -
  show "set (queue_pop q) \<subseteq> set q"
    unfolding queue_pop_def by (rule set_remove1_subset)
  show "set q - {queue_top q} \<subseteq> set (queue_pop q)"
  proof
    fix e assume "e \<in> set q - {queue_top q}"
    then show "e \<in> set (queue_pop q)"
      unfolding queue_pop_def by (simp add: in_set_remove1)
  qed
  from queue_top_max(1) [OF assms] show "length (queue_pop q) < length q"
    unfolding queue_pop_def using assms by (simp add: length_remove1)
qed

text \<open>Popping an entry of a settled cell changes nothing but the queue.\<close>

lemma pop_settled:
  assumes bc: "border_clear w h msk"
    and inv: "wave_inv w h msk F d (set q)" and ne: "q \<noteq> []"
    and top: "queue_top q = (ns, c)" and cF: "c \<in> F"
  shows "improvable w msk (- ns) c d = {}" and "wave_inv w h msk F d (set (queue_pop q))"
proof -
  from inv have lab: "labels_ok w h msk d" and qo: "queue_ok w h msk F d (set q)"
    and so: "settled_ok w h msk F d (set q)" and po: "pending_ok w h msk F d (set q)"
    by (simp_all add: wave_inv_def)
  from queue_top_max(1) [OF ne] top have mem: "(ns, c) \<in> set q" by simp
  from qo mem have dc: "d ! cell_index w c \<le> - ns" unfolding queue_ok_def by blast
  from so cF have fc: "free_cell w h msk c"
    and rel: "\<And>n. adjacent c n \<Longrightarrow> free_cell w h msk n \<Longrightarrow>
                d ! cell_index w n \<le> d ! cell_index w c + step_cost c n"
    unfolding settled_ok_def by blast+
  show "improvable w msk (- ns) c d = {}"
  proof (rule ccontr)
    assume "improvable w msk (- ns) c d \<noteq> {}"
    then obtain n where a: "adjacent c n" and m: "msk ! cell_index w n"
      and lt: "- ns + step_cost c n < d ! cell_index w n"
      unfolding improvable_def by blast
    from adjacent_in_grid [OF bc fc a] m have "free_cell w h msk n"
      by (simp add: free_cell_def)
    from rel [OF a this] dc lt show False by simp
  qed
  let ?Q' = "set (queue_pop q)"
  from queue_pop_props [OF ne] have sub: "?Q' \<subseteq> set q" and sup: "set q - {(ns, c)} \<subseteq> ?Q'"
    unfolding top by simp_all
  have "queue_ok w h msk F d ?Q'" using qo sub unfolding queue_ok_def by blast
  moreover have "settled_ok w h msk F d ?Q'" using so sub unfolding settled_ok_def by blast
  moreover have "pending_ok w h msk F d ?Q'"
    unfolding pending_ok_def
  proof (intro allI impI)
    fix c' assume h: "free_cell w h msk c' \<and> d ! cell_index w c' < float_max \<and> c' \<notin> F"
    with po have "(- (d ! cell_index w c'), c') \<in> set q" unfolding pending_ok_def by blast
    moreover from h cF have "c' \<noteq> c" by blast
    ultimately show "(- (d ! cell_index w c'), c') \<in> ?Q'" using sup by auto
  qed
  ultimately show "wave_inv w h msk F d ?Q'" using lab by (simp add: wave_inv_def)
qed

lemma adjacent_sym: "adjacent a b \<Longrightarrow> adjacent b a"
  by (auto simp: adjacent_def)

lemma pop_fresh:
  assumes bc: "border_clear w h msk"
    and inv: "wave_inv w h msk F d (set q)" and ne: "q \<noteq> []"
    and top: "queue_top q = (ns, c)" and cF: "c \<notin> F"
    and ld': "length d' = nat (w * h)"
    and v: "\<And>n. in_grid w h n \<Longrightarrow>
              d' ! cell_index w n =
                (if n \<in> improvable w msk (- ns) c d then - ns + step_cost c n
                 else d ! cell_index w n)"
    and sq: "Q'' = set (queue_pop q) \<union>
               (\<lambda>n. (- (- ns + step_cost c n), n)) ` improvable w msk (- ns) c d"
  shows "wave_inv w h msk (insert c F) d' Q''"
proof -
  let ?s = "- ns"
  let ?I = "improvable w msk ?s c d"
  let ?F' = "insert c F"
  from inv have lab: "labels_ok w h msk d" and qo: "queue_ok w h msk F d (set q)"
    and so: "settled_ok w h msk F d (set q)" and po: "pending_ok w h msk F d (set q)"
    by (simp_all add: wave_inv_def)
  from so have finF: "finite F" by (simp add: settled_ok_def)
  with cF have card': "real (card ?F') = real (card F) + 1" by simp
  have grow: "a \<le> sqrt 2 * real (card ?F')" if "a \<le> sqrt 2 * real (card F)" for a
  proof -
    have "real (card F) \<le> real (card ?F')" unfolding card' by simp
    then have "sqrt 2 * real (card F) \<le> sqrt 2 * real (card ?F')"
      by (intro mult_left_mono) simp_all
    with that show ?thesis by (rule order_trans)
  qed
  from queue_top_max(1) [OF ne] top have mem: "(ns, c) \<in> set q" by simp
  from qo mem have fc: "free_cell w h msk c" and dc: "d ! cell_index w c \<le> ?s"
    and sfin: "?s < float_max" and sb: "?s \<le> sqrt 2 * real (card F)"
    unfolding queue_ok_def by blast+
  from qo mem obtain p where pc: "free_path w h msk (c # p)" "path_cost (c # p) = ?s"
    unfolding queue_ok_def by blast
  from path_cost_nonneg [OF pc(1)] pc(2) have s0: "0 \<le> ?s" by simp
  from fc have gc: "in_grid w h c" by (simp add: free_cell_def)
  have maxp: "?s \<le> - ns'" if "(ns', c') \<in> set q" for ns' c'
    using queue_top_max(2) [OF ne that] unfolding top by (auto simp: less_eq_prod_simp)
  have dcs: "d ! cell_index w c = ?s"
  proof -
    from dc sfin have "d ! cell_index w c < float_max" by simp
    with po fc cF have "(- (d ! cell_index w c), c) \<in> set q" unfolding pending_ok_def by blast
    from maxp [OF this] dc show ?thesis by simp
  qed
  from queue_pop_props [OF ne] have sub: "set (queue_pop q) \<subseteq> set q"
    and sup: "set q - {(ns, c)} \<subseteq> set (queue_pop q)"
    unfolding top by simp_all
  from lab have ld: "length d = nat (w * h)"
    and dmax: "\<And>n. in_grid w h n \<Longrightarrow> d ! cell_index w n \<le> float_max"
    and dpath: "\<And>n. in_grid w h n \<Longrightarrow> d ! cell_index w n < float_max \<Longrightarrow>
                  \<exists>p. free_path w h msk (n # p) \<and> path_cost (n # p) = d ! cell_index w n"
    and dsrc: "\<And>n. is_source w h msk n \<Longrightarrow> d ! cell_index w n = 0"
    unfolding labels_ok_def by blast+
  have I: "adjacent c n \<and> free_cell w h msk n \<and> in_grid w h n \<and>
           ?s + step_cost c n < d ! cell_index w n \<and> n \<noteq> c \<and> n \<notin> F \<and>
           1 \<le> step_cost c n \<and> step_cost c n \<le> sqrt 2"
    if "n \<in> ?I" for n
  proof -
    from that have a: "adjacent c n" and m: "msk ! cell_index w n"
      and lt: "?s + step_cost c n < d ! cell_index w n"
      unfolding improvable_def by blast+
    from adjacent_in_grid [OF bc fc a] have g: "in_grid w h n" .
    with m have f: "free_cell w h msk n" by (simp add: free_cell_def)
    from a have nc: "n \<noteq> c" by (auto simp: adjacent_def)
    note b = step_cost_bounds [OF a]
    have "n \<notin> F"
    proof
      assume "n \<in> F"
      with so mem have "d ! cell_index w n \<le> ?s" unfolding settled_ok_def by blast
      with lt b(1) show False by simp
    qed
    with a f g lt nc b show ?thesis by simp
  qed
  have cI: "c \<notin> ?I" using I [of c] by blast
  have v_le: "d' ! cell_index w n \<le> d ! cell_index w n" if "in_grid w h n" for n
    using v [OF that] I [of n] by (cases "n \<in> ?I") simp_all
  have v_c: "d' ! cell_index w c = ?s" using v [OF gc] cI dcs by simp
  have v_F: "d' ! cell_index w n = d ! cell_index w n" if "n \<in> F" for n
  proof -
    from so that have "free_cell w h msk n" unfolding settled_ok_def by blast
    then have "in_grid w h n" by (simp add: free_cell_def)
    from v [OF this] I [of n] that show ?thesis by (cases "n \<in> ?I") simp_all
  qed
  have pathI: "\<exists>p. free_path w h msk (n # p) \<and> path_cost (n # p) = ?s + step_cost c n"
    if "n \<in> ?I" for n
  proof -
    from I [OF that] have "free_cell w h msk n" "adjacent n c"
      by (simp_all add: adjacent_sym)
    with pc have "free_path w h msk (n # c # p)" "path_cost (n # c # p) = step_cost n c + ?s"
      by simp_all
    then show ?thesis using step_cost_sym [of n c] by (intro exI [of _ "c # p"]) simp
  qed
  have lab': "labels_ok w h msk d'"
    unfolding labels_ok_def
  proof (intro conjI allI impI)
    show "length d' = nat (w * h)" by (rule ld')
  next
    fix n assume g: "in_grid w h n"
    from v_le [OF g] dmax [OF g] show "d' ! cell_index w n \<le> float_max" by simp
  next
    fix n assume "in_grid w h n \<and> d' ! cell_index w n < float_max"
    then have g: "in_grid w h n" and lt: "d' ! cell_index w n < float_max" by simp_all
    show "\<exists>p. free_path w h msk (n # p) \<and> path_cost (n # p) = d' ! cell_index w n"
    proof (cases "n \<in> ?I")
      case True
      with pathI [OF True] v [OF g] show ?thesis by simp
    next
      case False
      with v [OF g] have e: "d' ! cell_index w n = d ! cell_index w n" by simp
      with lt dpath [OF g] show ?thesis by simp
    qed
  next
    fix n assume src: "is_source w h msk n"
    then have g: "in_grid w h n" using is_source_free [OF src] by (simp add: free_cell_def)
    have "n \<notin> ?I"
    proof
      assume "n \<in> ?I"
      from I [OF this] dsrc [OF src] s0 show False by simp
    qed
    with v [OF g] dsrc [OF src] show "d' ! cell_index w n = 0" by simp
  qed
  have qo': "queue_ok w h msk ?F' d' Q''"
    unfolding queue_ok_def
  proof (intro ballI, clarify)
    fix ns' c' assume e: "(ns', c') \<in> Q''"
    show "free_cell w h msk c' \<and> d' ! cell_index w c' \<le> - ns' \<and> - ns' < float_max \<and>
          (\<exists>p. free_path w h msk (c' # p) \<and> path_cost (c' # p) = - ns') \<and>
          - ns' \<le> sqrt 2 * real (card ?F')"
    proof (cases "(ns', c') \<in> set q")
      case True
      with qo have o: "free_cell w h msk c'" "d ! cell_index w c' \<le> - ns'" "- ns' < float_max"
        "\<exists>p. free_path w h msk (c' # p) \<and> path_cost (c' # p) = - ns'"
        "- ns' \<le> sqrt 2 * real (card F)"
        unfolding queue_ok_def by blast+
      from o(1) have "in_grid w h c'" by (simp add: free_cell_def)
      from v_le [OF this] o(2) have "d' ! cell_index w c' \<le> - ns'" by simp
      moreover from o(5) have "- ns' \<le> sqrt 2 * real (card ?F')"
        by (rule grow)
      ultimately show ?thesis using o by simp
    next
      case False
      with e sub obtain n where n: "n \<in> ?I" and eq: "ns' = - (?s + step_cost c n)" "c' = n"
        unfolding sq by auto
      note In = I [OF n]
      from In have g: "in_grid w h n" by simp
      from v [OF g] n have "d' ! cell_index w n = ?s + step_cost c n" by simp
      moreover from In dmax [OF g] have "?s + step_cost c n < float_max" by simp
      moreover from In sb have "?s + step_cost c n \<le> sqrt 2 * real (card ?F')"
        unfolding card' by (simp add: distrib_left)
      ultimately show ?thesis using In pathI [OF n] unfolding eq by simp
    qed
  qed
  have so': "settled_ok w h msk ?F' d' Q''"
    unfolding settled_ok_def
  proof (rule conjI)
    show "finite ?F'" using finF by simp
  next
    show "\<forall>c' \<in> ?F'. free_cell w h msk c' \<and> d' ! cell_index w c' \<le> sqrt 2 * real (card ?F') \<and>
          (\<forall>(ns, c'') \<in> Q''. d' ! cell_index w c' \<le> - ns) \<and>
          (\<forall>n. adjacent c' n \<and> free_cell w h msk n \<longrightarrow>
               d' ! cell_index w n \<le> d' ! cell_index w c' + step_cost c' n)"
    proof (rule ballI)
    fix c' assume c': "c' \<in> ?F'"
    have bound: "d' ! cell_index w c' \<le> ?s \<and> free_cell w h msk c' \<and>
                 d' ! cell_index w c' \<le> sqrt 2 * real (card ?F')"
    proof (cases "c' = c")
      case True
      with v_c fc grow [OF sb] show ?thesis by simp
    next
      case False
      with c' have m: "c' \<in> F" by simp
      with so mem have o: "free_cell w h msk c'" "d ! cell_index w c' \<le> sqrt 2 * real (card F)"
        "d ! cell_index w c' \<le> ?s"
        unfolding settled_ok_def by blast+
      from o(1,3) grow [OF o(2)] show ?thesis unfolding v_F [OF m] by simp
    qed
    have mono: "d' ! cell_index w c' \<le> - ns'" if e: "(ns', c'') \<in> Q''" for ns' c''
    proof (cases "(ns', c'') \<in> set q")
      case True
      from maxp [OF True] bound show ?thesis by simp
    next
      case False
      with e sub obtain n where n: "n \<in> ?I" and eq: "ns' = - (?s + step_cost c n)"
        unfolding sq by auto
      from I [OF n] bound show ?thesis unfolding eq by simp
    qed
    have relaxed: "d' ! cell_index w n \<le> d' ! cell_index w c' + step_cost c' n"
      if a: "adjacent c' n" and f: "free_cell w h msk n" for n
    proof -
      from f have g: "in_grid w h n" and m: "msk ! cell_index w n" by (simp_all add: free_cell_def)
      show ?thesis
      proof (cases "c' = c")
        case True
        show ?thesis
        proof (cases "n \<in> ?I")
          case True
          with v [OF g] v_c \<open>c' = c\<close> show ?thesis by simp
        next
          case False
          with a m \<open>c' = c\<close> have "\<not> ?s + step_cost c n < d ! cell_index w n"
            unfolding improvable_def by simp
          with v [OF g] False v_c \<open>c' = c\<close> show ?thesis by simp
        qed
      next
        case False
        with c' have mF: "c' \<in> F" by simp
        with so a f have "d ! cell_index w n \<le> d ! cell_index w c' + step_cost c' n"
          unfolding settled_ok_def by blast
        with v_le [OF g] show ?thesis unfolding v_F [OF mF] by simp
      qed
    qed
    from bound mono relaxed
    show "free_cell w h msk c' \<and> d' ! cell_index w c' \<le> sqrt 2 * real (card ?F') \<and>
          (\<forall>(ns, c'') \<in> Q''. d' ! cell_index w c' \<le> - ns) \<and>
          (\<forall>n. adjacent c' n \<and> free_cell w h msk n \<longrightarrow>
               d' ! cell_index w n \<le> d' ! cell_index w c' + step_cost c' n)"
      by blast
    qed
  qed
  have po': "pending_ok w h msk ?F' d' Q''"
    unfolding pending_ok_def
  proof (intro allI impI)
    fix n assume h: "free_cell w h msk n \<and> d' ! cell_index w n < float_max \<and> n \<notin> ?F'"
    then have g: "in_grid w h n" and f: "free_cell w h msk n"
      and lt: "d' ! cell_index w n < float_max" and nF: "n \<notin> F" and nc: "n \<noteq> c"
      by (simp_all add: free_cell_def)
    show "(- (d' ! cell_index w n), n) \<in> Q''"
    proof (cases "n \<in> ?I")
      case True
      with v [OF g] show ?thesis unfolding sq by auto
    next
      case False
      with v [OF g] have e: "d' ! cell_index w n = d ! cell_index w n" by simp
      from lt have "d ! cell_index w n < float_max" unfolding e .
      with po f nF have "(- (d ! cell_index w n), n) \<in> set q" unfolding pending_ok_def by blast
      with nc sup show ?thesis unfolding sq e by auto
    qed
  qed
  from lab' qo' so' po' show ?thesis by (simp add: wave_inv_def)
qed

lemma finite_free_cells: "finite {c. free_cell w h msk c}"
proof -
  have "{c. free_cell w h msk c} \<subseteq> {0..<w} \<times> {0..<h}"
    by (auto simp: free_cell_def in_grid_def)
  then show ?thesis by (rule finite_subset) simp
qed

lemma propagate_total:
  assumes bc: "border_clear w h msk" and lm: "length msk = nat (w * h)"
  shows "wave_inv w h msk F d (set q) \<Longrightarrow>
         \<exists>d' F'. propagate w msk d q = Some (Inr d') \<and> wave_inv w h msk F' d' {}"
proof (induction "(card ({c. free_cell w h msk c} - F), length q)" arbitrary: F d q rule: less_induct)
  case less
  note inv = less.prems
  show ?case
  proof (cases "q = []")
    case True
    then have "propagate w msk d q = Some (Inr d)"
      by (subst propagate.simps) simp
    with inv True show ?thesis by auto
  next
    case ne: False
    obtain ns c where top: "queue_top q = (ns, c)" by (cases "queue_top q")
    obtain x y where c: "c = (x, y)" by (cases c)
    from queue_top_max(1) [OF ne] top have mem: "(ns, c) \<in> set q" by simp
    from inv have qo: "queue_ok w h msk F d (set q)" and lab: "labels_ok w h msk d"
      by (simp_all add: wave_inv_def)
    from qo mem have fc: "free_cell w h msk (x, y)" unfolding queue_ok_def c by blast
    from lab have ld: "length d = nat (w * h)" by (simp add: labels_ok_def)
    from relax_all [OF bc fc lm ld, of "- ns" "queue_pop q"] obtain d1 q1 where
      f: "fold (\<lambda>j. fold (relax w msk (- ns) x y j) [- 1..1]) [- 1..1] (Inr (d, queue_pop q)) =
            Inr (d1, q1)"
      and ld1: "length d1 = nat (w * h)"
      and v1: "\<And>n. in_grid w h n \<Longrightarrow> d1 ! cell_index w n =
                 (if n \<in> improvable w msk (- ns) c d then - ns + step_cost c n
                  else d ! cell_index w n)"
      and s1: "set q1 = set (queue_pop q) \<union>
                 (\<lambda>n. (- (- ns + step_cost c n), n)) ` improvable w msk (- ns) c d"
      and e1: "improvable w msk (- ns) c d = {} \<longrightarrow> d1 = d \<and> q1 = queue_pop q"
      unfolding c by blast
    have unfold: "propagate w msk d q = propagate w msk d1 q1"
      by (subst propagate.simps) (simp add: ne top c f Let_def)
    show ?thesis
    proof (cases "c \<in> F")
      case True
      from pop_settled [OF bc inv ne top True] e1
      have same: "d1 = d" "q1 = queue_pop q" and inv1: "wave_inv w h msk F d (set (queue_pop q))"
        by simp_all
      from queue_pop_props(3) [OF ne]
      have m: "(card ({c. free_cell w h msk c} - F), length (queue_pop q)) <
               (card ({c. free_cell w h msk c} - F), length q)"
        by simp
      from less.hyps [OF m inv1] show ?thesis unfolding unfold same .
    next
      case False
      from pop_fresh [OF bc inv ne top False ld1 v1 s1]
      have inv1: "wave_inv w h msk (insert c F) d1 (set q1)" .
      from fc False have "c \<in> {c. free_cell w h msk c} - F" by (simp add: c)
      then have "card ({c. free_cell w h msk c} - insert c F) < card ({c. free_cell w h msk c} - F)"
        using finite_free_cells [of w h msk]
        by (metis Diff_insert card_Diff1_less finite_Diff)
      then have m: "(card ({c. free_cell w h msk c} - insert c F), length q1) <
                    (card ({c. free_cell w h msk c} - F), length q)"
        by simp
      from less.hyps [OF m inv1] show ?thesis unfolding unfold .
    qed
  qed
qed

lemma boundary_test_source:
  assumes lm: "length msk = nat (w * h)"
    and i: "1 \<le> x" "x \<le> w - 2" "1 \<le> y" "y \<le> h - 2"
  shows "boundary_test w msk (y * w + x) = Inr (is_source w h msk (x, y))"
proof -
  have g: "in_grid w h (x, y)" "in_grid w h (x - 1, y)" "in_grid w h (x + 1, y)"
    "in_grid w h (x, y - 1)" "in_grid w h (x, y + 1)"
    using i by (simp_all add: in_grid_def)
  have r0: "vec_at msk (y * w + x) = Inr (msk ! cell_index w (x, y))"
    using vec_at_cell [OF g(1) lm] by simp
  have r1: "vec_at msk (y * w + x - 1) = Inr (msk ! cell_index w (x - 1, y))"
    using vec_at_cell [OF g(2) lm] by (simp add: algebra_simps)
  have r2: "vec_at msk (y * w + x + 1) = Inr (msk ! cell_index w (x + 1, y))"
    using vec_at_cell [OF g(3) lm] by (simp add: algebra_simps)
  have r3: "vec_at msk (y * w + x - w) = Inr (msk ! cell_index w (x, y - 1))"
    using vec_at_cell [OF g(4) lm] by (simp add: algebra_simps)
  have r4: "vec_at msk (y * w + x + w) = Inr (msk ! cell_index w (x, y + 1))"
    using vec_at_cell [OF g(5) lm] by (simp add: algebra_simps)
  show ?thesis
    unfolding boundary_test_def r0 r1 r2 r3 r4 using i by (simp add: is_source_def)
qed

lemma seed_cell_step:
  assumes lm: "length msk = nat (w * h)" and ld: "length d = nat (w * h)"
    and i: "1 \<le> x" "x \<le> w - 2" "1 \<le> y" "y \<le> h - 2"
  shows "seed_cell w msk y x (Inr (d, q)) =
         (if is_source w h msk (x, y) then Inr (d[cell_index w (x, y) := 0], (0, (x, y)) # q)
          else Inr (d, q))"
proof -
  have g: "in_grid w h (x, y)" using i by (simp add: in_grid_def)
  from g index_in_range [of x w y h]
  have r0: "0 \<le> y * w + x" "y * w + x < w * h" by (simp_all add: in_grid_def)
  then have "y * w + x < int (length d)" unfolding ld by linarith
  with r0 have r: "0 \<le> y * w + x" "y * w + x < int (length d)"
    "nat (y * w + x) = cell_index w (x, y)"
    by (simp_all add: cell_index_def)
  show ?thesis
    unfolding seed_cell_def Let_def boundary_test_source [OF lm i] using r by simp
qed

lemma seed_fold:
  assumes lm: "length msk = nat (w * h)"
  shows "length d = nat (w * h) \<Longrightarrow>
    \<forall>(y, x) \<in> set cs. 1 \<le> x \<and> x \<le> w - 2 \<and> 1 \<le> y \<and> y \<le> h - 2 \<Longrightarrow>
    \<exists>d' q'. fold (\<lambda>(y, x). seed_cell w msk y x) cs (Inr (d, q)) = Inr (d', q') \<and>
       length d' = nat (w * h) \<and>
       (\<forall>n. in_grid w h n \<longrightarrow>
          d' ! cell_index w n =
            (if (snd n, fst n) \<in> set cs \<and> is_source w h msk n then 0 else d ! cell_index w n)) \<and>
       set q' = set q \<union> {(0, n) | n. (snd n, fst n) \<in> set cs \<and> is_source w h msk n}"
proof (induction cs arbitrary: d q)
  case Nil
  then show ?case by simp
next
  case (Cons a cs)
  obtain y x where a: "a = (y, x)" by (cases a)
  let ?b = "is_source w h msk (x, y)"
  let ?d1 = "if ?b then d[cell_index w (x, y) := 0] else d"
  let ?q1 = "if ?b then (0, (x, y)) # q else q"
  from Cons.prems(2) have i: "1 \<le> x" "x \<le> w - 2" "1 \<le> y" "y \<le> h - 2"
    and rest: "\<forall>(y, x) \<in> set cs. 1 \<le> x \<and> x \<le> w - 2 \<and> 1 \<le> y \<and> y \<le> h - 2"
    by (simp_all add: a)
  have g: "in_grid w h (x, y)" using i by (simp add: in_grid_def)
  have step: "fold (\<lambda>(y, x). seed_cell w msk y x) (a # cs) (Inr (d, q)) =
              fold (\<lambda>(y, x). seed_cell w msk y x) cs (Inr (?d1, ?q1))"
    using seed_cell_step [OF lm Cons.prems(1) i, of q] by (simp add: a)
  have ld1: "length ?d1 = nat (w * h)" using Cons.prems(1) by simp
  from Cons.IH [OF ld1 rest, of ?q1] obtain d' q' where
    f: "fold (\<lambda>(y, x). seed_cell w msk y x) cs (Inr (?d1, ?q1)) = Inr (d', q')"
    and l': "length d' = nat (w * h)"
    and v': "\<And>n. in_grid w h n \<Longrightarrow> d' ! cell_index w n =
              (if (snd n, fst n) \<in> set cs \<and> is_source w h msk n then 0 else ?d1 ! cell_index w n)"
    and s': "set q' = set ?q1 \<union> {(0, n) | n. (snd n, fst n) \<in> set cs \<and> is_source w h msk n}"
    by blast
  have v: "d' ! cell_index w n =
            (if (snd n, fst n) \<in> set (a # cs) \<and> is_source w h msk n then 0 else d ! cell_index w n)"
    if gn: "in_grid w h n" for n
  proof (cases "n = (x, y)")
    case True
    have "cell_index w (x, y) < length d" using cell_index_int(2) [OF g] Cons.prems(1) by simp
    then show ?thesis unfolding v' [OF gn] using True by (simp add: a)
  next
    case False
    with cell_index_inj [OF gn g] have "cell_index w n \<noteq> cell_index w (x, y)" by blast
    then have d1: "?d1 ! cell_index w n = d ! cell_index w n" by simp
    from False have "(snd n, fst n) \<noteq> (y, x)" by (auto simp: prod_eq_iff)
    then have neq: "(snd n, fst n) \<in> set (a # cs) \<longleftrightarrow> (snd n, fst n) \<in> set cs"
      unfolding a by auto
    show ?thesis unfolding v' [OF gn] neq d1 ..
  qed
  have s: "set q' = set q \<union> {(0, n) | n. (snd n, fst n) \<in> set (a # cs) \<and> is_source w h msk n}"
    unfolding s' a by (auto simp: prod_eq_iff)
  from f l' v s show ?case unfolding step by blast
qed

lemma in_pairs_iff:
  "(y, x) \<in> set (concat (map (\<lambda>y. map (Pair y) xs) ys)) \<longleftrightarrow> y \<in> set ys \<and> x \<in> set xs"
  by (induction ys) auto

lemma seeds_invariant:
  assumes lm: "length msk = nat (w * h)"
  shows "\<exists>d q. fold (\<lambda>y. fold (seed_cell w msk y) [1..w - 2]) [1..h - 2]
                 (Inr (replicate (nat (w * h)) float_max, [])) = Inr (d, q) \<and>
               wave_inv w h msk {} d (set q)"
proof -
  let ?cs = "concat (map (\<lambda>y. map (Pair y) [1..w - 2]) [1..h - 2])"
  let ?d0 = "replicate (nat (w * h)) float_max"
  have cells: "(y, x) \<in> set ?cs \<longleftrightarrow> y \<in> set [1..h - 2] \<and> x \<in> set [1..w - 2]" for y x
    by (rule in_pairs_iff)
  have rng: "\<forall>(y, x) \<in> set ?cs. 1 \<le> x \<and> x \<le> w - 2 \<and> 1 \<le> y \<and> y \<le> h - 2"
  proof (intro ballI, clarify)
    fix y x assume "(y, x) \<in> set ?cs"
    then show "1 \<le> x \<and> x \<le> w - 2 \<and> 1 \<le> y \<and> y \<le> h - 2"
      unfolding cells by simp
  qed
  have mem: "(snd n, fst n) \<in> set ?cs" if "is_source w h msk n" for n
    unfolding cells using that by (simp add: is_source_def)
  have l0: "length ?d0 = nat (w * h)" by simp
  from seed_fold [OF lm l0 rng, of "[]"] obtain d q where
    f: "fold (\<lambda>(y, x). seed_cell w msk y x) ?cs (Inr (?d0, [])) = Inr (d, q)"
    and l: "length d = nat (w * h)"
    and v: "\<And>n. in_grid w h n \<Longrightarrow> d ! cell_index w n =
              (if (snd n, fst n) \<in> set ?cs \<and> is_source w h msk n then 0 else ?d0 ! cell_index w n)"
    and s: "set q = set [] \<union> {(0, n) | n. (snd n, fst n) \<in> set ?cs \<and> is_source w h msk n}"
    by blast
  have D: "d ! cell_index w n = (if is_source w h msk n then 0 else float_max)"
    if g: "in_grid w h n" for n
  proof (cases "is_source w h msk n")
    case True
    with v [OF g] mem [OF True] show ?thesis by simp
  next
    case False
    with v [OF g] cell_index_int(2) [OF g] show ?thesis by simp
  qed
  have Q: "set q = {(0, n) | n. is_source w h msk n}"
  proof -
    have "((snd n, fst n) \<in> set ?cs \<and> is_source w h msk n) = is_source w h msk n" for n
      using mem [of n] by blast
    then show ?thesis unfolding s by simp
  qed
  have fm: "(0 :: real) < float_max" by (simp add: float_max_def)
  have src_grid: "in_grid w h n" if "is_source w h msk n" for n
    using is_source_free [OF that] by (simp add: free_cell_def)
  have lab: "labels_ok w h msk d"
    unfolding labels_ok_def
  proof (intro conjI allI impI)
    show "length d = nat (w * h)" by (rule l)
  next
    fix n assume "in_grid w h n"
    from D [OF this] fm show "d ! cell_index w n \<le> float_max" by simp
  next
    fix n assume "in_grid w h n \<and> d ! cell_index w n < float_max"
    with D [of n] have src: "is_source w h msk n" and z: "d ! cell_index w n = 0"
      by (auto split: if_splits)
    then show "\<exists>p. free_path w h msk (n # p) \<and> path_cost (n # p) = d ! cell_index w n"
      by (intro exI [of _ "[]"]) simp
  next
    fix n assume "is_source w h msk n"
    with D [OF src_grid] show "d ! cell_index w n = 0" by simp
  qed
  have qo: "queue_ok w h msk {} d (set q)"
    unfolding queue_ok_def Q
  proof (intro ballI, clarify)
    fix n assume src: "is_source w h msk n"
    from D [OF src_grid [OF src]] src have z: "d ! cell_index w n = 0" by simp
    have "free_path w h msk (n # []) \<and> path_cost (n # []) = - 0" using src by simp
    then have "\<exists>p. free_path w h msk (n # p) \<and> path_cost (n # p) = - 0" by (rule exI)
    with is_source_free [OF src] z fm
    show "free_cell w h msk n \<and> d ! cell_index w n \<le> - 0 \<and> - 0 < float_max \<and>
          (\<exists>p. free_path w h msk (n # p) \<and> path_cost (n # p) = - 0) \<and>
          - 0 \<le> sqrt 2 * real (card ({} :: cell set))"
      by simp
  qed
  have so: "settled_ok w h msk {} d (set q)" by (simp add: settled_ok_def)
  have po: "pending_ok w h msk {} d (set q)"
    unfolding pending_ok_def Q
  proof (intro allI impI)
    fix n assume h: "free_cell w h msk n \<and> d ! cell_index w n < float_max \<and> n \<notin> {}"
    then have g: "in_grid w h n" by (simp add: free_cell_def)
    from h D [OF g] have "is_source w h msk n" "d ! cell_index w n = 0" by (auto split: if_splits)
    then show "(- (d ! cell_index w n), n) \<in> {(0, n) | n. is_source w h msk n}"
      by (simp del: split_paired_Ex)
  qed
  from lab qo so po have "wave_inv w h msk {} d (set q)" by (simp add: wave_inv_def)
  with f show ?thesis unfolding fold_nested_pairs by blast
qed

lemma sqrt2_less_2: "sqrt 2 < 2"
proof -
  have "sqrt 2 < sqrt 4" by (intro real_sqrt_less_mono) simp
  then show ?thesis by simp
qed

lemma pending_empty:
  assumes "pending_ok w h msk F d {}" and "free_cell w h msk c"
    and "d ! cell_index w c < float_max"
  shows "c \<in> F"
proof (rule ccontr)
  assume "c \<notin> F"
  with assms have "(- (d ! cell_index w c), c) \<in> {}" unfolding pending_ok_def by blast
  then show False by simp
qed

lemma settled_bound:
  assumes so: "settled_ok w h msk F d Q" and size: "w * h < 2 ^ 31" and c: "c \<in> F"
  shows "d ! cell_index w c + sqrt 2 < float_max"
proof -
  from so c have fin: "finite F" and sub: "F \<subseteq> {c. free_cell w h msk c}"
    and b: "d ! cell_index w c \<le> sqrt 2 * real (card F)" and fc: "free_cell w h msk c"
    unfolding settled_ok_def by blast+
  from fc have pos: "0 < w" "0 < h" by (auto simp: free_cell_def in_grid_def)
  have "{c. free_cell w h msk c} \<subseteq> {0..<w} \<times> {0..<h}"
    by (auto simp: free_cell_def in_grid_def)
  with sub have "F \<subseteq> {0..<w} \<times> {0..<h}" by blast
  then have "card F \<le> card ({0..<w} \<times> {0..<h})" by (intro card_mono) simp_all
  also have "\<dots> = nat w * nat h" by (simp add: card_cartesian_product)
  also have "\<dots> = nat (w * h)" using pos by (simp add: nat_mult_distrib)
  finally have "card F \<le> nat (w * h)" .
  moreover from size have "nat (w * h) \<le> 2 ^ 31" by simp
  ultimately have "card F \<le> 2 ^ 31" by simp
  then have "real (card F) \<le> 2 ^ 31" by (metis of_nat_le_iff of_nat_numeral of_nat_power)
  then have "sqrt 2 * real (card F) \<le> 2 * 2 ^ 31"
    using sqrt2_less_2 by (intro mult_mono) simp_all
  with b sqrt2_less_2 have "d ! cell_index w c + sqrt 2 < 2 * 2 ^ 31 + 2" by simp
  also have "\<dots> < float_max" by (simp add: float_max_def)
  finally show ?thesis .
qed

lemma final_lower:
  assumes inv: "wave_inv w h msk F d {}" and size: "w * h < 2 ^ 31"
  shows "free_path w h msk (c # p) \<Longrightarrow>
         d ! cell_index w c \<le> path_cost (c # p) \<and> c \<in> F"
proof (induction p arbitrary: c)
  case Nil
  then have src: "is_source w h msk c" by simp
  from inv have lab: "labels_ok w h msk d" and po: "pending_ok w h msk F d {}"
    by (simp_all add: wave_inv_def)
  from lab src have z: "d ! cell_index w c = 0" unfolding labels_ok_def by blast
  have "(0 :: real) < float_max" by (simp add: float_max_def)
  with z have "d ! cell_index w c < float_max" by simp
  from pending_empty [OF po is_source_free [OF src] this] have "c \<in> F" .
  with z show ?case by simp
next
  case (Cons b p)
  from Cons.prems have fc: "free_cell w h msk c" and adj: "adjacent c b"
    and rest: "free_path w h msk (b # p)" by simp_all
  from Cons.IH [OF rest] have db: "d ! cell_index w b \<le> path_cost (b # p)" and bF: "b \<in> F"
    by simp_all
  from inv have so: "settled_ok w h msk F d {}" and po: "pending_ok w h msk F d {}"
    by (simp_all add: wave_inv_def)
  from so bF adjacent_sym [OF adj] fc
  have rel: "d ! cell_index w c \<le> d ! cell_index w b + step_cost b c"
    unfolding settled_ok_def by blast
  from step_cost_bounds(2) [OF adjacent_sym [OF adj]] settled_bound [OF so size bF] rel
  have "d ! cell_index w c < float_max" by simp
  from pending_empty [OF po fc this] have "c \<in> F" .
  moreover from rel db have "d ! cell_index w c \<le> path_cost (c # b # p)"
    by (simp add: step_cost_sym [of c b])
  ultimately show ?case by simp
qed

lemma path_cost_zero:
  assumes "free_path w h msk (c # p)" and "path_cost (c # p) = 0"
  shows "is_source w h msk c"
proof (cases p)
  case Nil
  with assms(1) show ?thesis by simp
next
  case (Cons b p')
  with assms(1) have "adjacent c b" "free_path w h msk (b # p')" by simp_all
  with step_cost_bounds(1) [of c b] path_cost_nonneg [of w h msk "b # p'"]
  have "1 \<le> path_cost (c # b # p')" by simp
  with assms(2) Cons show ?thesis by simp
qed

text \<open>
  Claim C4. Let the mask have one entry per cell of a grid of \<open>w\<close> by \<open>h\<close> cells, fewer
  than \<open>2 ^ 31\<close> of them, with the border of the grid outside the mask.
  \<^verbatim>\<open>SetDistanceToBoundary\<close> ends without a failure, with one distance per cell. The
  distance of a cell is 0 exactly when the cell is a source (a cell of the mask, off the
  border, with one of its four neighbours outside the mask). The distance of a cell is
  at most the cost of every path of free cells from a source to it, over steps to one of
  the eight neighbours that cost the Euclidean length of the step (1 along an axis,
  \<open>sqrt 2\<close> along a diagonal), and when there is such a path, one of them has exactly
  this cost. A cell outside the mask, or one that no such path reaches, keeps the
  distance \<open>float_max\<close> it started with.
\<close>

theorem SetDistanceToBoundary_shortest:
  assumes size: "w * h < 2 ^ 31" and lm: "length msk = nat (w * h)"
    and bc: "border_clear w h msk"
  shows "\<exists>d. SetDistanceToBoundary w h msk = Some (Inr d) \<and> length d = nat (w * h) \<and>
           (\<forall>c. in_grid w h c \<longrightarrow>
              (d ! cell_index w c = 0 \<longleftrightarrow> is_source w h msk c) \<and>
              (\<forall>p. free_path w h msk (c # p) \<longrightarrow> d ! cell_index w c \<le> path_cost (c # p)) \<and>
              ((\<exists>p. free_path w h msk (c # p)) \<longrightarrow>
                 (\<exists>p. free_path w h msk (c # p) \<and> path_cost (c # p) = d ! cell_index w c)) \<and>
              (\<not> msk ! cell_index w c \<or> \<not> (\<exists>p. free_path w h msk (c # p)) \<longrightarrow>
                 d ! cell_index w c = float_max))"
proof -
  from seeds_invariant [OF lm] obtain d0 q0 where
    seed: "fold (\<lambda>y. fold (seed_cell w msk y) [1..w - 2]) [1..h - 2]
             (Inr (replicate (nat (w * h)) float_max, [])) = Inr (d0, q0)"
    and inv0: "wave_inv w h msk {} d0 (set q0)" by blast
  from propagate_total [OF bc lm inv0] obtain d F where
    run: "propagate w msk d0 q0 = Some (Inr d)" and inv: "wave_inv w h msk F d {}" by blast
  have res: "SetDistanceToBoundary w h msk = Some (Inr d)"
    by (simp add: SetDistanceToBoundary_def seed run)
  from inv have lab: "labels_ok w h msk d" by (simp add: wave_inv_def)
  then have len: "length d = nat (w * h)"
    and dmax: "\<And>n. in_grid w h n \<Longrightarrow> d ! cell_index w n \<le> float_max"
    and dpath: "\<And>n. in_grid w h n \<Longrightarrow> d ! cell_index w n < float_max \<Longrightarrow>
                  \<exists>p. free_path w h msk (n # p) \<and> path_cost (n # p) = d ! cell_index w n"
    and dsrc: "\<And>n. is_source w h msk n \<Longrightarrow> d ! cell_index w n = 0"
    unfolding labels_ok_def by blast+
  from inv have so: "settled_ok w h msk F d {}" by (simp add: wave_inv_def)
  have fm: "(0 :: real) < float_max" by (simp add: float_max_def)
  have cellwise:
    "(d ! cell_index w c = 0 \<longleftrightarrow> is_source w h msk c) \<and>
     (\<forall>p. free_path w h msk (c # p) \<longrightarrow> d ! cell_index w c \<le> path_cost (c # p)) \<and>
     ((\<exists>p. free_path w h msk (c # p)) \<longrightarrow>
        (\<exists>p. free_path w h msk (c # p) \<and> path_cost (c # p) = d ! cell_index w c)) \<and>
     (\<not> msk ! cell_index w c \<or> \<not> (\<exists>p. free_path w h msk (c # p)) \<longrightarrow>
        d ! cell_index w c = float_max)"
    if g: "in_grid w h c" for c
  proof -
    have zero: "d ! cell_index w c = 0 \<longleftrightarrow> is_source w h msk c"
    proof
      assume z: "d ! cell_index w c = 0"
      with fm dpath [OF g] obtain p where "free_path w h msk (c # p)" "path_cost (c # p) = 0"
        by auto
      then show "is_source w h msk c" by (rule path_cost_zero)
    next
      assume "is_source w h msk c"
      then show "d ! cell_index w c = 0" by (rule dsrc)
    qed
    have lower: "d ! cell_index w c \<le> path_cost (c # p)" if "free_path w h msk (c # p)" for p
      using final_lower [OF inv size that] by simp
    have labelled: "d ! cell_index w c < float_max" if "free_path w h msk (c # p)" for p
    proof -
      from final_lower [OF inv size that] have "c \<in> F" by simp
      have "0 \<le> sqrt 2" by simp
      with settled_bound [OF so size \<open>c \<in> F\<close>] show ?thesis by linarith
    qed
    have attained: "\<exists>p. free_path w h msk (c # p) \<and> path_cost (c # p) = d ! cell_index w c"
      if "\<exists>p. free_path w h msk (c # p)"
      using that labelled dpath [OF g] by blast
    have none: "d ! cell_index w c = float_max" if "\<not> (\<exists>p. free_path w h msk (c # p))"
    proof (rule ccontr)
      assume "d ! cell_index w c \<noteq> float_max"
      with dmax [OF g] have "d ! cell_index w c < float_max" by simp
      from dpath [OF g this] that show False by blast
    qed
    have outside: "\<not> (\<exists>p. free_path w h msk (c # p))" if "\<not> msk ! cell_index w c"
    proof
      assume "\<exists>p. free_path w h msk (c # p)"
      then obtain p where "free_path w h msk (c # p)" by blast
      from free_path_head_free [OF this] that show False by (simp add: free_cell_def)
    qed
    from zero lower attained none outside show ?thesis by blast
  qed
  from res len cellwise show ?thesis by blast
qed

lemma block_mask_border: "border_clear 5 5 block_mask"
  unfolding border_clear_def
proof (intro allI impI)
  fix c :: cell
  assume h: "in_grid 5 5 c \<and> (fst c = 0 \<or> fst c = 5 - 1 \<or> snd c = 0 \<or> snd c = 5 - 1)"
  obtain x y where c: "c = (x, y)" by (cases c)
  from h have "x \<in> {0, 1, 2, 3, 4}" "y \<in> {0, 1, 2, 3, 4}" "x = 0 \<or> x = 4 \<or> y = 0 \<or> y = 4"
    unfolding c in_grid_def by auto
  then show "\<not> block_mask ! cell_index 5 c"
    unfolding c cell_index_def block_mask_def by auto
qed

theorem SetDistanceToBoundary_shortest_witness:
  "(5 :: int) * 5 < 2 ^ 31 \<and> length block_mask = nat (5 * 5) \<and> border_clear 5 5 block_mask \<and>
   (\<exists>d. SetDistanceToBoundary 5 5 block_mask = Some (Inr d) \<and>
        d ! cell_index 5 (1, 1) = 0 \<and> d ! cell_index 5 (2, 2) = 1 \<and>
        d ! cell_index 5 (0, 0) = float_max)"
proof -
  have size: "(5 :: int) * 5 < 2 ^ 31" by simp
  have len: "length block_mask = nat (5 * 5)" by (simp add: block_mask_def)
  note bc = block_mask_border
  from SetDistanceToBoundary_shortest [OF size len bc] obtain d where
    run: "SetDistanceToBoundary 5 5 block_mask = Some (Inr d)"
    and cells: "\<And>c. in_grid 5 5 c \<Longrightarrow>
      (d ! cell_index 5 c = 0 \<longleftrightarrow> is_source 5 5 block_mask c) \<and>
      (\<forall>p. free_path 5 5 block_mask (c # p) \<longrightarrow> d ! cell_index 5 c \<le> path_cost (c # p)) \<and>
      ((\<exists>p. free_path 5 5 block_mask (c # p)) \<longrightarrow>
         (\<exists>p. free_path 5 5 block_mask (c # p) \<and> path_cost (c # p) = d ! cell_index 5 c)) \<and>
      (\<not> block_mask ! cell_index 5 c \<or> \<not> (\<exists>p. free_path 5 5 block_mask (c # p)) \<longrightarrow>
         d ! cell_index 5 c = float_max)"
    by blast
  have src11: "is_source 5 5 block_mask (1, 1)"
    by (simp add: is_source_def cell_index_def block_mask_def)
  have src12: "is_source 5 5 block_mask (1, 2)"
    by (simp add: is_source_def cell_index_def block_mask_def)
  have nsrc22: "\<not> is_source 5 5 block_mask (2, 2)"
    by (simp add: is_source_def cell_index_def block_mask_def)
  have a: "d ! cell_index 5 (1, 1) = 0"
    using cells [of "(1, 1)"] src11 by (simp add: in_grid_def)
  have c: "d ! cell_index 5 (0, 0) = float_max"
    using cells [of "(0, 0)"] by (simp add: in_grid_def cell_index_def block_mask_def)
  have g22: "in_grid 5 5 (2, 2)" by (simp add: in_grid_def)
  have p22: "free_path 5 5 block_mask [(2, 2), (1, 2)]"
    using src12 by (simp add: free_cell_def in_grid_def adjacent_def cell_index_def block_mask_def)
  have cost22: "path_cost [(2, 2), (1, 2)] = 1" by (simp add: step_cost_def)
  from cells [OF g22] p22 cost22 have up: "d ! cell_index 5 (2, 2) \<le> 1" by fastforce
  from cells [OF g22] p22 obtain p where
    fp: "free_path 5 5 block_mask ((2, 2) # p)" and eq: "path_cost ((2, 2) # p) = d ! cell_index 5 (2, 2)"
    by blast
  have "1 \<le> path_cost ((2, 2) # p)"
  proof (cases p)
    case Nil
    with fp nsrc22 show ?thesis by simp
  next
    case (Cons b p')
    with fp have "adjacent (2, 2) b" "free_path 5 5 block_mask (b # p')" by simp_all
    with step_cost_bounds(1) [of "(2, 2)" b] path_cost_nonneg [of 5 5 block_mask "b # p'"]
    show ?thesis unfolding Cons by simp
  qed
  with up eq have b: "d ! cell_index 5 (2, 2) = 1" by simp
  from size len bc run a b c show ?thesis by blast
qed

end
